theory Spec2Isabelle
  imports Main
begin

section \<open>Syntax trees\<close>

text \<open>
  The serializer works on Babel syntax trees.  Only the node kinds that the visitors of
  \<^verbatim>\<open>withExpoSerializers.ts\<close> look at are kept apart; every other node is an
  \<open>OtherNode\<close> with its children in traversal order.  An \<open>Identifier\<close> node of this
  type is an identifier that is not the binding identifier of its own declaration (a
  reference, a property name, a key): the ids of declarations and the local names of
  import specifiers are fields of their declarations, they are the nodes for which
  Babel's \<^verbatim>\<open>scope.bindingIdentifierEquals\<close> holds.
\<close>

datatype expr =
    Identifier string
  | StringLiteral string
  | MemberExpression expr expr
  | CallExpression expr "expr list"
  | OtherNode "expr list"

text \<open>\<^verbatim>\<open>node.name\<close>: the name of an identifier, \<^verbatim>\<open>undefined\<close> on any other node.\<close>

fun node_name :: "expr \<Rightarrow> string option" where
  "node_name (Identifier n) = Some n"
| "node_name (StringLiteral s) = None"
| "node_name (MemberExpression ob pr) = None"
| "node_name (CallExpression c as) = None"
| "node_name (OtherNode cs) = None"

text \<open>\<^verbatim>\<open>traverse\<close> enters a node before its children, children from left to right.\<close>

fun nodes :: "expr \<Rightarrow> expr list" where
  "nodes (Identifier n) = [Identifier n]"
| "nodes (StringLiteral s) = [StringLiteral s]"
| "nodes (MemberExpression ob pr) = MemberExpression ob pr # nodes ob @ nodes pr"
| "nodes (CallExpression c as) = CallExpression c as # nodes c @ concat (map nodes as)"
| "nodes (OtherNode cs) = OtherNode cs # concat (map nodes cs)"

datatype specifier =
    ImportSpecifier string string
  | ImportDefaultSpecifier string
  | ImportNamespaceSpecifier string

text \<open>
  \<open>ImportSpecifier imported local\<close> is \<^verbatim>\<open>import { imported as local }\<close>; the two other
  specifiers have a local name only.
\<close>

datatype lval =
    IdentifierPattern string
  | DestructuringPattern "expr list"

datatype declarator = VariableDeclarator lval "expr list"

datatype decl =
    VariableDeclaration "declarator list"
  | FunctionDeclaration string "expr list"
  | ClassDeclaration string "expr list"

text \<open>
  A statement of the program body.  \<open>ImportDeclaration source specifiers\<close>;
  \<open>ExportNamedDeclaration declaration specifiers\<close> with the export specifiers as pairs
  (local, exported); \<open>Statement\<close> is any other statement.  The \<open>expr list\<close> of a
  statement or declaration holds its child nodes other than binding identifiers.
\<close>

datatype statement =
    ImportDeclaration string "specifier list"
  | ExportDefaultDeclaration "expr list"
  | ExportNamedDeclaration "decl option" "(string \<times> string) list"
  | Statement "expr list"

type_synonym program = "statement list"

fun declarator_nodes :: "declarator \<Rightarrow> expr list" where
  "declarator_nodes (VariableDeclarator (IdentifierPattern n) init) = concat (map nodes init)"
| "declarator_nodes (VariableDeclarator (DestructuringPattern ps) init) =
     concat (map nodes ps) @ concat (map nodes init)"

fun declaration_nodes :: "decl \<Rightarrow> expr list" where
  "declaration_nodes (VariableDeclaration ds) = concat (map declarator_nodes ds)"
| "declaration_nodes (FunctionDeclaration n body) = concat (map nodes body)"
| "declaration_nodes (ClassDeclaration n body) = concat (map nodes body)"

fun statement_nodes :: "statement \<Rightarrow> expr list" where
  "statement_nodes (ImportDeclaration src specs) = []"
| "statement_nodes (ExportDefaultDeclaration body) = concat (map nodes body)"
| "statement_nodes (ExportNamedDeclaration None specs) =
     concat (map (\<lambda>(l, e). [Identifier l, Identifier e]) specs)"
| "statement_nodes (ExportNamedDeclaration (Some d) specs) =
     declaration_nodes d @ concat (map (\<lambda>(l, e). [Identifier l, Identifier e]) specs)"
| "statement_nodes (Statement body) = concat (map nodes body)"

definition program_nodes :: "program \<Rightarrow> expr list" where
  "program_nodes body = concat (map statement_nodes body)"

section \<open>The dependency graph\<close>

record dependency =
  absolutePath :: string
  data_name :: string

datatype specifier_type =
  ImportSpecifierT | ImportDefaultSpecifierT | ImportNamespaceSpecifierT

record import_specifier =
  spec_type :: specifier_type
  importedName :: "string option"
  localName :: string

record import_item =
  source :: string
  key :: string
  specifiers :: "import_specifier list"
  cjs :: bool

text \<open>
  An output unit.  \<open>ast\<close> is the tree that \<^verbatim>\<open>outputItem.data.ast ?? babylon.parse(code)\<close>
  yields; \<open>modules_imports\<close> is \<^verbatim>\<open>outputItem.data.modules?.imports\<close> (the list
  \<^verbatim>\<open>modules.exports\<close> is created empty and never written).
\<close>

record output_item =
  output_type :: string
  ast :: program
  modules_imports :: "import_item list option"
  code :: string
  lineCount :: nat
  map_segments :: "nat list list"
  functionMap :: "string option"

text \<open>
  A module object.  \<^verbatim>\<open>dependencies\<close> is a Map from keys to dependency entries, kept as
  the list of its entries in insertion order.  \<^verbatim>\<open>inverseDependencies\<close> is Metro's
  counting set of paths: it holds a path as often as the path has been added,
  \<^verbatim>\<open>delete\<close> takes one of these away, and \<^verbatim>\<open>size\<close> and the iterator see the paths
  that are left at least once.  It is kept as a list in which a path occurs as often as
  the set counts it.
\<close>

record module =
  path :: string
  dependencies :: "(string \<times> dependency) list"
  inverseDependencies :: "string list"
  outputs :: "output_item list"

text \<open>
  \<^verbatim>\<open>graph.dependencies\<close> is a Map from keys to module objects that the pass mutates in
  place, and a module object stays reachable through a loop variable after its entry has
  been deleted from the Map.  So the objects live in a store \<open>heap\<close>, addressed by the
  key under which the Map held them (distinct keys hold distinct objects), and
  \<open>entries\<close> lists the keys present in the Map, in insertion order.
\<close>

record graph =
  heap :: "string \<Rightarrow> module"
  entries :: "string list"

definition graph_get :: "graph \<Rightarrow> string \<Rightarrow> module option" where
  "graph_get g k = (if k \<in> set (entries g) then Some (heap g k) else None)"

definition update_module :: "graph \<Rightarrow> string \<Rightarrow> (module \<Rightarrow> module) \<Rightarrow> graph" where
  "update_module g k f = g\<lparr>heap := (heap g)(k := f (heap g k))\<rparr>"

definition empty_module :: module where
  "empty_module = \<lparr>path = [], dependencies = [], inverseDependencies = [], outputs = []\<rparr>"

definition graph_of :: "(string \<times> module) list \<Rightarrow> graph" where
  "graph_of ms =
     \<lparr>heap = (\<lambda>k. case map_of ms k of Some m \<Rightarrow> m | None \<Rightarrow> empty_module),
      entries = map fst ms\<rparr>"

section \<open>Errors\<close>

text \<open>
  \<open>GraphKeyError\<close> is the \<^verbatim>\<open>Failed to find graph key for import\<close> error of the
  source, \<open>TypeError\<close> a property read on \<^verbatim>\<open>undefined\<close>, \<open>RemovedPathError\<close>
  Babel's refusal to remove a path twice, and \<open>PluginError\<close> an error thrown by a
  collaborator or by another stage of the chain.
\<close>

datatype error =
    GraphKeyError string
  | TypeError
  | RemovedPathError
  | PluginError string

definition and_then :: "error + 'a \<Rightarrow> ('a \<Rightarrow> error + 'b) \<Rightarrow> error + 'b" where
  "and_then r f = (case r of Inl e \<Rightarrow> Inl e | Inr x \<Rightarrow> f x)"

fun each_concat :: "('a \<Rightarrow> error + 'b list) \<Rightarrow> 'a list \<Rightarrow> error + 'b list" where
  "each_concat f [] = Inr []"
| "each_concat f (x # xs) =
     and_then (f x) (\<lambda>ys. and_then (each_concat f xs) (\<lambda>zs. Inr (ys @ zs)))"

fun each :: "('a \<Rightarrow> error + 'b) \<Rightarrow> 'a list \<Rightarrow> error + 'b list" where
  "each f [] = Inr []"
| "each f (x # xs) = and_then (f x) (\<lambda>y. and_then (each f xs) (\<lambda>ys. Inr (y # ys)))"

section \<open>The usage analyzer: collectImportExports\<close>

definition getGraphId :: "module \<Rightarrow> string \<Rightarrow> error + string" where
  "getGraphId val moduleId =
     (case find (\<lambda>dep. data_name dep = moduleId) (map snd (dependencies val)) of
        None \<Rightarrow> Inl (GraphKeyError moduleId)
      | Some dep \<Rightarrow>
          if absolutePath dep = [] then Inl (GraphKeyError moduleId)
          else Inr (absolutePath dep))"

fun specifier_record :: "specifier \<Rightarrow> import_specifier" where
  "specifier_record (ImportSpecifier imported local) =
     \<lparr>spec_type = ImportSpecifierT, importedName = Some imported, localName = local\<rparr>"
| "specifier_record (ImportDefaultSpecifier local) =
     \<lparr>spec_type = ImportDefaultSpecifierT, importedName = None, localName = local\<rparr>"
| "specifier_record (ImportNamespaceSpecifier local) =
     \<lparr>spec_type = ImportNamespaceSpecifierT, importedName = None, localName = local\<rparr>"

text \<open>The \<open>CallExpression\<close> visitor: a \<^verbatim>\<open>require\<close> call with a string literal.\<close>

fun collect_call :: "module \<Rightarrow> expr \<Rightarrow> error + import_item list" where
  "collect_call val (CallExpression (Identifier c) args) =
     (if c = ''require'' then
        (case args of
           [] \<Rightarrow> Inl TypeError
         | StringLiteral s # rest \<Rightarrow>
             and_then (getGraphId val s)
               (\<lambda>k. Inr [\<lparr>source = s, key = k, specifiers = [], cjs = True\<rparr>])
         | _ # rest \<Rightarrow> Inr [])
      else Inr [])"
| "collect_call val e = Inr []"

fun collect_statement :: "module \<Rightarrow> statement \<Rightarrow> error + import_item list" where
  "collect_statement val (ImportDeclaration src specs) =
     and_then (getGraphId val src)
       (\<lambda>k. Inr [\<lparr>source = src, key = k, specifiers = map specifier_record specs,
                  cjs = False\<rparr>])"
| "collect_statement val s = each_concat (collect_call val) (statement_nodes s)"

definition collect_output :: "module \<Rightarrow> output_item \<Rightarrow> error + output_item" where
  "collect_output val outputItem =
     and_then (each_concat (collect_statement val) (ast outputItem))
       (\<lambda>imports. Inr (outputItem\<lparr>modules_imports := Some imports\<rparr>))"

definition collectImportExports :: "module \<Rightarrow> error + module" where
  "collectImportExports val =
     and_then (each (collect_output val) (outputs val)) (\<lambda>outs. Inr (val\<lparr>outputs := outs\<rparr>))"

section \<open>detectCommonJsExportsUsage\<close>

fun member_is_commonjs :: "expr \<Rightarrow> bool" where
  "member_is_commonjs (MemberExpression ob pr) =
     ((node_name ob = Some ''module'' \<and> node_name pr = Some ''exports'')
      \<or> node_name ob = Some ''exports'')"
| "member_is_commonjs e = False"

fun first_arg_is_exports :: "expr \<Rightarrow> bool" where
  "first_arg_is_exports (MemberExpression ob pr) =
     (node_name ob = Some ''module'' \<and> node_name pr = Some ''exports'')"
| "first_arg_is_exports (Identifier n) = (n = ''exports'')"
| "first_arg_is_exports e = False"

fun call_is_commonjs :: "expr \<Rightarrow> error + bool" where
  "call_is_commonjs (CallExpression (MemberExpression ob pr) args) =
     (if node_name ob = Some ''Object''
         \<and> (node_name pr = Some ''assign'' \<or> node_name pr = Some ''defineProperties'')
      then (case args of [] \<Rightarrow> Inl TypeError | firstArg # rest \<Rightarrow> Inr (first_arg_is_exports firstArg))
      else Inr False)"
| "call_is_commonjs e = Inr False"

definition detectCommonJsExportsUsage :: "program \<Rightarrow> error + bool" where
  "detectCommonJsExportsUsage body =
     and_then (each call_is_commonjs (program_nodes body))
       (\<lambda>calls. Inr (list_ex member_is_commonjs (program_nodes body) \<or> list_ex id calls))"

section \<open>Export pruning: treeShakeExports\<close>

definition isExportUsed :: "graph \<Rightarrow> string \<Rightarrow> module \<Rightarrow> string \<Rightarrow> bool" where
  "isExportUsed g depId val importName =
     list_ex (\<lambda>i. case graph_get g i of
         None \<Rightarrow> False
       | Some dep \<Rightarrow>
           list_ex (\<lambda>outputItem.
               output_type outputItem = ''js/module'' \<and>
               (case modules_imports outputItem of
                  None \<Rightarrow> False
                | Some imports \<Rightarrow>
                    list_ex (\<lambda>importItem.
                        key importItem = depId \<and>
                        (cjs importItem \<or>
                         list_ex (\<lambda>sp. importedName sp = Some importName)
                           (specifiers importItem)))
                      imports))
             (outputs dep))
       (inverseDependencies val)"

text \<open>
  \<^verbatim>\<open>markUnused\<close> with the constant \<^verbatim>\<open>annotate = false\<close> is \<^verbatim>\<open>path.remove()\<close>, on the
  path of the whole export statement.  The flag is the path's \<^verbatim>\<open>removed\<close> state:
  removing a removed path throws.
\<close>

definition markUnused :: "bool \<Rightarrow> error + bool" where
  "markUnused removed = (if removed then Inl RemovedPathError else Inr True)"

fun shake_declarators :: "(string \<Rightarrow> bool) \<Rightarrow> declarator list \<Rightarrow> bool \<Rightarrow> error + bool" where
  "shake_declarators used [] removed = Inr removed"
| "shake_declarators used (VariableDeclarator (IdentifierPattern n) init # ds) removed =
     (if \<not> used n then and_then (markUnused removed) (shake_declarators used ds)
      else shake_declarators used ds removed)"
| "shake_declarators used (VariableDeclarator (DestructuringPattern ps) init # ds) removed =
     shake_declarators used ds removed"

text \<open>The two export visitors: \<open>Inr True\<close> when the statement's path has been removed.\<close>

fun shake_statement :: "(string \<Rightarrow> bool) \<Rightarrow> statement \<Rightarrow> error + bool" where
  "shake_statement used (ExportDefaultDeclaration body) =
     (if \<not> used ''default'' then markUnused False else Inr False)"
| "shake_statement used (ExportNamedDeclaration (Some (VariableDeclaration ds)) specs) =
     shake_declarators used ds False"
| "shake_statement used (ExportNamedDeclaration (Some (FunctionDeclaration n body)) specs) =
     (if \<not> used n then markUnused False else Inr False)"
| "shake_statement used (ExportNamedDeclaration (Some (ClassDeclaration n body)) specs) =
     (if \<not> used n then markUnused False else Inr False)"
| "shake_statement used (ExportNamedDeclaration None specs) = Inr False"
| "shake_statement used (ImportDeclaration src specs) = Inr False"
| "shake_statement used (Statement body) = Inr False"

fun shake_program :: "(string \<Rightarrow> bool) \<Rightarrow> program \<Rightarrow> error + program" where
  "shake_program used [] = Inr []"
| "shake_program used (s # ss) =
     and_then (shake_statement used s)
       (\<lambda>removed. and_then (shake_program used ss)
          (\<lambda>ss'. Inr (if removed then ss' else s # ss')))"

definition shake_output :: "(string \<Rightarrow> bool) \<Rightarrow> output_item \<Rightarrow> error + output_item" where
  "shake_output used outputItem =
     and_then (shake_program used (ast outputItem)) (\<lambda>b. Inr (outputItem\<lparr>ast := b\<rparr>))"

definition treeShakeExports :: "graph \<Rightarrow> string \<Rightarrow> error + graph" where
  "treeShakeExports g depId =
     (let val = heap g depId in
      and_then (each (shake_output (isExportUsed g depId val)) (outputs val))
        (\<lambda>outs. Inr (update_module g depId (\<lambda>m. m\<lparr>outputs := outs\<rparr>))))"

section \<open>Import pruning: removeUnusedImports\<close>

text \<open>
  The first traversal.  The \<open>ImportSpecifier\<close> visitor records \<^verbatim>\<open>imported.name\<close>, the
  two others \<^verbatim>\<open>local.name\<close>.  The \<open>Identifier\<close> visitor skips every identifier below
  an \<open>ImportSpecifier\<close> and every binding identifier, so it records the names of the
  \<open>Identifier\<close> nodes of \<open>program_nodes\<close>.  Both are sets of which only membership
  and emptiness are read.
\<close>

fun specifier_identifier :: "specifier \<Rightarrow> string" where
  "specifier_identifier (ImportSpecifier imported local) = imported"
| "specifier_identifier (ImportDefaultSpecifier local) = local"
| "specifier_identifier (ImportNamespaceSpecifier local) = local"

fun statement_imported :: "statement \<Rightarrow> string list" where
  "statement_imported (ImportDeclaration src specs) = map specifier_identifier specs"
| "statement_imported (ExportDefaultDeclaration body) = []"
| "statement_imported (ExportNamedDeclaration d specs) = []"
| "statement_imported (Statement body) = []"

definition importedIdentifiers :: "program \<Rightarrow> string list" where
  "importedIdentifiers body = remdups (concat (map statement_imported body))"

definition usedIdentifiers :: "program \<Rightarrow> string list" where
  "usedIdentifiers body = remdups (List.map_filter node_name (program_nodes body))"

definition unusedImports :: "program \<Rightarrow> string list" where
  "unusedImports body =
     filter (\<lambda>identifier. identifier \<notin> set (usedIdentifiers body)) (importedIdentifiers body)"

text \<open>
  The filter of the second traversal reads \<^verbatim>\<open>specifier.imported.name\<close>, which throws on
  a specifier without \<^verbatim>\<open>imported\<close>.
\<close>

fun filter_specifiers :: "string list \<Rightarrow> specifier list \<Rightarrow> error + specifier list" where
  "filter_specifiers unused [] = Inr []"
| "filter_specifiers unused (ImportSpecifier imported local # ss) =
     and_then (filter_specifiers unused ss)
       (\<lambda>rest. Inr (if imported \<in> set unused then rest
                     else ImportSpecifier imported local # rest))"
| "filter_specifiers unused (ImportDefaultSpecifier local # ss) = Inl TypeError"
| "filter_specifiers unused (ImportNamespaceSpecifier local # ss) = Inl TypeError"

text \<open>
  Unlinking the module \<open>v\<close> from the module its import \<open>importModuleId\<close> resolves to:
  one count of the path of \<open>v\<close> leaves the inverse dependencies of that module, the module
  leaves the graph when no path is left there, and \<open>v\<close> loses the dependency entry.
\<close>

definition unlink_dependency :: "graph \<Rightarrow> string \<Rightarrow> string \<Rightarrow> error + graph" where
  "unlink_dependency g v importModuleId =
     (let val = heap g v in
      case find (\<lambda>(k, dep). data_name dep = importModuleId) (dependencies val) of
        None \<Rightarrow> Inl (GraphKeyError importModuleId)
      | Some (depId, found) \<Rightarrow>
          if depId = [] then Inl (GraphKeyError importModuleId)
          else
            (case map_of (dependencies val) depId of
               None \<Rightarrow> Inl TypeError
             | Some dep \<Rightarrow>
                 (case graph_get g (absolutePath dep) of
                    None \<Rightarrow> Inl TypeError
                  | Some graphDep \<Rightarrow>
                      let g1 = update_module g (absolutePath dep)
                                 (\<lambda>m. m\<lparr>inverseDependencies :=
                                          remove1 (path val) (inverseDependencies m)\<rparr>);
                          g2 = (if inverseDependencies (heap g1 (absolutePath dep)) = []
                                then g1\<lparr>entries := removeAll (absolutePath dep) (entries g1)\<rparr>
                                else g1)
                      in Inr (update_module g2 v
                                (\<lambda>m. m\<lparr>dependencies :=
                                         filter (\<lambda>(k, d). k \<noteq> depId) (dependencies m)\<rparr>)))))"

text \<open>
  The second traversal, over the statements of the body in order.  It threads the graph
  and the flag \<open>removed\<close> and returns the statements that stay.
\<close>

fun remove_imports ::
  "string list \<Rightarrow> string \<Rightarrow> program \<Rightarrow> graph \<Rightarrow> bool \<Rightarrow> error + (program \<times> graph \<times> bool)" where
  "remove_imports unused v [] g removed = Inr ([], g, removed)"
| "remove_imports unused v (ImportDeclaration src specs # ss) g removed =
     and_then (filter_specifiers unused specs)
       (\<lambda>specs'.
          if specs' = [] then
            and_then (unlink_dependency g v src) (\<lambda>g'. remove_imports unused v ss g' True)
          else
            and_then (remove_imports unused v ss g removed)
              (\<lambda>(ss', g', r). Inr (ImportDeclaration src specs' # ss', g', r)))"
| "remove_imports unused v (ExportDefaultDeclaration body # ss) g removed =
     and_then (remove_imports unused v ss g removed)
       (\<lambda>(ss', g', r). Inr (ExportDefaultDeclaration body # ss', g', r))"
| "remove_imports unused v (ExportNamedDeclaration d specs # ss) g removed =
     and_then (remove_imports unused v ss g removed)
       (\<lambda>(ss', g', r). Inr (ExportNamedDeclaration d specs # ss', g', r))"
| "remove_imports unused v (Statement body # ss) g removed =
     and_then (remove_imports unused v ss g removed)
       (\<lambda>(ss', g', r). Inr (Statement body # ss', g', r))"

definition set_ast :: "nat \<Rightarrow> program \<Rightarrow> module \<Rightarrow> module" where
  "set_ast index body m = m\<lparr>outputs := (outputs m)[index := (outputs m ! index)\<lparr>ast := body\<rparr>]\<rparr>"

text \<open>
  \<open>removeUnusedImports g v index\<close> is the call
  \<^verbatim>\<open>removeUnusedImports(value, value.output[index].data.ast)\<close> on the module object \<open>v\<close>.
\<close>

definition removeUnusedImports :: "graph \<Rightarrow> string \<Rightarrow> nat \<Rightarrow> error + (bool \<times> graph)" where
  "removeUnusedImports g v index =
     (if length (outputs (heap g v)) \<le> index then Inl TypeError
      else
        let body = ast (outputs (heap g v) ! index);
            unused = unusedImports body
        in and_then (remove_imports unused v body g (unused \<noteq> []))
             (\<lambda>(body', g', removed). Inr (removed, update_module g' v (set_ast index body'))))"

section \<open>The fixpoint: treeShakeAll\<close>

text \<open>
  \<^verbatim>\<open>treeShakeAll\<close> calls itself from inside its two for statements.  The recursion is bounded by a
  fuel argument; \<open>OutOfFuel\<close> stands for a run that does not return.
\<close>

datatype 'a outcome = OutOfFuel | Threw error | Done 'a

fun collect_all :: "string list \<Rightarrow> graph \<Rightarrow> error + graph" where
  "collect_all [] g = Inr g"
| "collect_all (k # ks) g =
     and_then (collectImportExports (heap g k))
       (\<lambda>m. collect_all ks (g\<lparr>heap := (heap g)(k := m)\<rparr>))"

text \<open>
  The loop over the output units of the module \<open>v\<close>; \<open>again\<close> is the recursive call.
\<close>

fun shake_outputs ::
  "(graph \<Rightarrow> graph outcome) \<Rightarrow> string \<Rightarrow> nat list \<Rightarrow> graph \<Rightarrow> graph outcome" where
  "shake_outputs again v [] g = Done g"
| "shake_outputs again v (index # is) g =
     (case removeUnusedImports g v index of
        Inl e \<Rightarrow> Threw e
      | Inr (removed, g1) \<Rightarrow>
          if removed then
            (case again g1 of
               Done g2 \<Rightarrow> shake_outputs again v is g2
             | Threw e \<Rightarrow> Threw e
             | OutOfFuel \<Rightarrow> OutOfFuel)
          else shake_outputs again v is g1)"

text \<open>
  The loop over the entries of the Map.  The Map's iterator is live: it passes over a
  key that has been deleted before the iterator reaches it.
\<close>

fun shake_modules ::
  "(graph \<Rightarrow> graph outcome) \<Rightarrow> string list \<Rightarrow> graph \<Rightarrow> graph outcome" where
  "shake_modules again [] g = Done g"
| "shake_modules again (depId # ks) g =
     (if depId \<notin> set (entries g) then shake_modules again ks g
      else
        (case treeShakeExports g depId of
           Inl e \<Rightarrow> Threw e
         | Inr g1 \<Rightarrow>
             (case shake_outputs again depId [0..<length (outputs (heap g1 depId))] g1 of
                Done g2 \<Rightarrow> shake_modules again ks g2
              | Threw e \<Rightarrow> Threw e
              | OutOfFuel \<Rightarrow> OutOfFuel)))"

primrec treeShakeAll :: "nat \<Rightarrow> graph \<Rightarrow> graph outcome" where
  "treeShakeAll 0 = (\<lambda>g. OutOfFuel)"
| "treeShakeAll (Suc n) =
     (\<lambda>g. case collect_all (entries g) g of
             Inl e \<Rightarrow> Threw e
           | Inr g1 \<Rightarrow> shake_modules (treeShakeAll n) (entries g1) g1)"

text \<open>
  The number of import declarations and import specifiers of the trees: every import
  removal lowers it.
\<close>

fun statement_weight :: "statement \<Rightarrow> nat" where
  "statement_weight (ImportDeclaration src specs) = Suc (length specs)"
| "statement_weight (ExportDefaultDeclaration body) = 0"
| "statement_weight (ExportNamedDeclaration d specs) = 0"
| "statement_weight (Statement body) = 0"

definition program_weight :: "program \<Rightarrow> nat" where
  "program_weight body = sum_list (map statement_weight body)"

definition module_weight :: "module \<Rightarrow> nat" where
  "module_weight m = sum_list (map (\<lambda>outputItem. program_weight (ast outputItem)) (outputs m))"

definition graph_weight :: "string list \<Rightarrow> graph \<Rightarrow> nat" where
  "graph_weight ks g = sum_list (map (\<lambda>k. module_weight (heap g k)) ks)"

section \<open>The tree-shaking stage\<close>

text \<open>
  A serializer stage maps the four-tuple (entry point, prepended modules, graph, options)
  to a four-tuple.  Of the options only the fields read by this file are kept.
\<close>

record serializer_options =
  sourceUrl :: "string option"
  sourceMapUrl :: "string option"
  dev :: bool
  projectRoot :: string
  serverRoot :: "string option"
  createModuleId :: "string \<Rightarrow> nat"

type_synonym params = "string \<times> module list \<times> graph \<times> serializer_options"

type_synonym plugin = "params \<Rightarrow> params outcome"

text \<open>
  The code regeneration after the fixpoint goes through Babel and Metro
  (\<^verbatim>\<open>generateImportNames\<close>, \<^verbatim>\<open>transformFromAstSync\<close>, \<^verbatim>\<open>JsFileWrapping.wrapModule\<close>,
  \<^verbatim>\<open>countLines\<close>), which are collaborators: \<open>generate\<close> maps the file name and the tree to
  the output code and the function map, or throws.  The loop writes \<^verbatim>\<open>code\<close>,
  \<^verbatim>\<open>lineCount\<close>, \<^verbatim>\<open>map\<close> and \<^verbatim>\<open>functionMap\<close> of the output unit and leaves
  \<^verbatim>\<open>data.ast\<close> as it is.
\<close>

record babel =
  generate :: "string \<Rightarrow> program \<Rightarrow> error + (string \<times> string option)"
  countLines :: "string \<Rightarrow> nat"

definition regenerate_output :: "babel \<Rightarrow> string \<Rightarrow> output_item \<Rightarrow> error + output_item" where
  "regenerate_output b file outputItem =
     and_then (generate b file (ast outputItem))
       (\<lambda>(outputCode, fm).
          Inr (outputItem\<lparr>code := outputCode, lineCount := countLines b outputCode,
                           map_segments := [], functionMap := fm\<rparr>))"

definition regenerate_module :: "babel \<Rightarrow> module \<Rightarrow> error + module" where
  "regenerate_module b val =
     and_then (each (regenerate_output b (path val)) (outputs val))
       (\<lambda>outs. Inr (val\<lparr>outputs := outs\<rparr>))"

fun regenerate_all :: "babel \<Rightarrow> string list \<Rightarrow> graph \<Rightarrow> error + graph" where
  "regenerate_all b [] g = Inr g"
| "regenerate_all b (k # ks) g =
     and_then (regenerate_module b (heap g k))
       (\<lambda>m. regenerate_all b ks (g\<lparr>heap := (heap g)(k := m)\<rparr>))"

definition treeShakeSerializerPlugin ::
  "nat \<Rightarrow> babel \<Rightarrow> string \<Rightarrow> module list \<Rightarrow> graph \<Rightarrow> serializer_options \<Rightarrow> params outcome" where
  "treeShakeSerializerPlugin fuel b entryPoint preModules g options =
     (case treeShakeAll fuel g of
        OutOfFuel \<Rightarrow> OutOfFuel
      | Threw e \<Rightarrow> Threw e
      | Done g1 \<Rightarrow>
          (case regenerate_all b (entries g1) g1 of
             Inl e \<Rightarrow> Threw e
           | Inr g2 \<Rightarrow> Done (entryPoint, preModules, g2, options)))"

section \<open>The serializer chain\<close>

datatype serializer_output = BundleString string | BundleWithMap string "string list \<times> string"

text \<open>
  A source map is the JSON text of an object with a \<^verbatim>\<open>sources\<close> array; the text is
  identified with the pair of that array and the rest of the object, so that
  \<^verbatim>\<open>JSON.parse\<close> and \<^verbatim>\<open>JSON.stringify\<close> are the identity.  In the same way the JSON
  text of the asset array is the list of its assets.
\<close>

type_synonym source_map = "string list \<times> string"

datatype asset_source = Text string | SourceMapJson source_map

record serial_asset =
  filename :: string
  originFilename :: string
  asset_type :: string
  asset_source :: asset_source

datatype serializer_result = Plain serializer_output | StaticAssets "serial_asset list"

type_synonym serializer = "params \<Rightarrow> serializer_output outcome"

record url =
  pathname :: string
  searchParams :: "(string \<times> string) list"

text \<open>
  The collaborators of the emitter: Metro's bundle stringifier and source-map
  stringifier, the URL parser (with the \<^verbatim>\<open>jsc-safe-url\<close> normalisation), the style-asset
  extractor, the content-hash file namer and Node's \<^verbatim>\<open>path.relative\<close>.
\<close>

record collaborators =
  baseJSBundle :: "params \<Rightarrow> string"
  parse_url :: "string \<Rightarrow> url"
  getCssSerialAssets :: "graph \<Rightarrow> serializer_options \<Rightarrow> serial_asset list"
  fileNameFromContents :: "string \<Rightarrow> string \<Rightarrow> string"
  sourceMapString :: "module list \<Rightarrow> serializer_options \<Rightarrow> source_map"
  path_relative :: "string \<Rightarrow> string \<Rightarrow> string"

definition getSortedModules :: "graph \<Rightarrow> serializer_options \<Rightarrow> module list" where
  "getSortedModules g options =
     sort_key (\<lambda>m. createModuleId options (path m)) (map (heap g) (entries g))"

definition serializeToSourceMap :: "collaborators \<Rightarrow> params \<Rightarrow> source_map" where
  "serializeToSourceMap env props =
     (case props of (entryPoint, prepend, g, options) \<Rightarrow>
        sourceMapString env (prepend @ getSortedModules g options) options)"

fun startsWith_slash :: "string \<Rightarrow> bool" where
  "startsWith_slash [] = False"
| "startsWith_slash (c # cs) = (c = CHR ''/'')"

definition rewrite_source :: "collaborators \<Rightarrow> serializer_options \<Rightarrow> string \<Rightarrow> string" where
  "rewrite_source env options v =
     (if startsWith_slash v then
        ''/'' @ path_relative env
                  (case serverRoot options of Some root \<Rightarrow> root | None \<Rightarrow> projectRoot options) v
      else v)"

definition truthy :: "string option \<Rightarrow> bool" where
  "truthy s = (case s of None \<Rightarrow> False | Some t \<Rightarrow> t \<noteq> [])"

fun code_of :: "serializer_output \<Rightarrow> string" where
  "code_of (BundleString c) = c"
| "code_of (BundleWithMap c m) = c"

fun output_truthy :: "serializer_output \<Rightarrow> bool" where
  "output_truthy (BundleString c) = (c \<noteq> [])"
| "output_truthy (BundleWithMap c m) = True"

fun map_of_output :: "collaborators \<Rightarrow> params \<Rightarrow> serializer_output \<Rightarrow> source_map" where
  "map_of_output env props (BundleString c) = serializeToSourceMap env props"
| "map_of_output env props (BundleWithMap c m) = m"

definition static_assets ::
  "collaborators \<Rightarrow> params \<Rightarrow> url \<Rightarrow> serializer_output \<Rightarrow> serial_asset list" where
  "static_assets env props u jsCode =
     (case props of (entryPoint, preModules, g, options) \<Rightarrow>
        let includeSourceMaps = (map_of (searchParams u) ''serializer.map'' = Some ''true'');
            cssDeps = getCssSerialAssets env g options;
            jsAssets =
              (if output_truthy jsCode then
                 let stringContents = code_of jsCode;
                     jsFilename = fileNameFromContents env (pathname u) stringContents
                 in \<lparr>filename = (if dev options then ''index.js''
                                   else ''_expo/static/js/web/'' @ jsFilename @ ''.js''),
                      originFilename = ''index.js'', asset_type = ''js'',
                      asset_source = Text stringContents\<rparr> #
                    (if includeSourceMaps \<and> truthy (sourceMapUrl options) then
                       let parsed = map_of_output env props jsCode
                       in [\<lparr>filename = (if dev options then ''index.map''
                                          else ''_expo/static/js/web/'' @ jsFilename @ ''.js.map''),
                            originFilename = ''index.map'', asset_type = ''map'',
                            asset_source =
                              SourceMapJson (map (rewrite_source env options) (fst parsed),
                                             snd parsed)\<rparr>]
                     else [])
               else [])
        in jsAssets @ cssDeps)"

definition defaultSerializer :: "collaborators \<Rightarrow> serializer option \<Rightarrow> serializer" where
  "defaultSerializer env fallbackSerializer =
     (case fallbackSerializer of
        Some f \<Rightarrow> f
      | None \<Rightarrow> (\<lambda>ps. Done (BundleString (baseJSBundle env ps))))"

definition getDefaultSerializer ::
  "collaborators \<Rightarrow> serializer option \<Rightarrow> params \<Rightarrow> serializer_result outcome" where
  "getDefaultSerializer env fallbackSerializer props =
     (case defaultSerializer env fallbackSerializer props of
        OutOfFuel \<Rightarrow> OutOfFuel
      | Threw e \<Rightarrow> Threw e
      | Done jsCode \<Rightarrow>
          (case props of (entryPoint, preModules, g, options) \<Rightarrow>
                (case sourceUrl options of
                   None \<Rightarrow> Done (Plain jsCode)
                 | Some su \<Rightarrow>
                     if su = [] then Done (Plain jsCode)
                     else
                       let u = parse_url env su in
                       if map_of (searchParams u) ''platform'' \<noteq> Some ''web''
                          \<or> map_of (searchParams u) ''serializer.output'' \<noteq> Some ''static''
                       then Done (Plain jsCode)
                       else Done (StaticAssets (static_assets env props u jsCode)))))"

text \<open>The loop of \<^verbatim>\<open>createSerializerFromSerialProcessors\<close> over the processors.\<close>

fun run_processors :: "plugin option list \<Rightarrow> params \<Rightarrow> params outcome" where
  "run_processors [] props = Done props"
| "run_processors (None # ps) props = run_processors ps props"
| "run_processors (Some processor # ps) props =
     (case processor props of
        OutOfFuel \<Rightarrow> OutOfFuel
      | Threw e \<Rightarrow> Threw e
      | Done props' \<Rightarrow> run_processors ps props')"

definition createSerializerFromSerialProcessors ::
  "collaborators \<Rightarrow> plugin option list \<Rightarrow> serializer option \<Rightarrow> params
     \<Rightarrow> serializer_result outcome" where
  "createSerializerFromSerialProcessors env processors originalSerializer props =
     (let finalSerializer = getDefaultSerializer env originalSerializer
      in case run_processors processors props of
           OutOfFuel \<Rightarrow> OutOfFuel
         | Threw e \<Rightarrow> Threw e
         | Done props' \<Rightarrow> finalSerializer props')"

section \<open>The specification's reading of the chain\<close>

text \<open>
  In the words of the specification: plugins run strictly in list order, each one's
  output tuple feeding the next, and undefined plugins are skipped.
\<close>

definition defined_stages :: "plugin option list \<Rightarrow> plugin list" where
  "defined_stages processors = List.map_filter id processors"

definition feed :: "params outcome \<Rightarrow> plugin \<Rightarrow> params outcome" where
  "feed r stage = (case r of OutOfFuel \<Rightarrow> OutOfFuel | Threw e \<Rightarrow> Threw e | Done t \<Rightarrow> stage t)"

definition stages_in_order :: "plugin list \<Rightarrow> params \<Rightarrow> params outcome" where
  "stages_in_order stages props = foldl feed (Done props) stages"

section \<open>Node's path.relative on absolute POSIX paths\<close>

fun split_path :: "string \<Rightarrow> string list" where
  "split_path [] = [[]]"
| "split_path (c # cs) =
     (if c = CHR ''/'' then [] # split_path cs
      else (case split_path cs of [] \<Rightarrow> [[c]] | seg # segs \<Rightarrow> (c # seg) # segs))"

fun resolve_segments :: "string list \<Rightarrow> string list \<Rightarrow> string list" where
  "resolve_segments acc [] = rev acc"
| "resolve_segments acc (s # ss) =
     (if s = [] \<or> s = ''.'' then resolve_segments acc ss
      else if s = ''..'' then resolve_segments (tl acc) ss
      else resolve_segments (s # acc) ss)"

fun drop_common :: "string list \<Rightarrow> string list \<Rightarrow> string list \<times> string list" where
  "drop_common (a # as) (b # bs) = (if a = b then drop_common as bs else (a # as, b # bs))"
| "drop_common as bs = (as, bs)"

fun join_path :: "string list \<Rightarrow> string" where
  "join_path [] = []"
| "join_path [s] = s"
| "join_path (s # t # ss) = s @ ''/'' @ join_path (t # ss)"

definition posix_relative :: "string \<Rightarrow> string \<Rightarrow> string" where
  "posix_relative from to =
     (case drop_common (resolve_segments [] (split_path from))
                       (resolve_segments [] (split_path to)) of
        (up, down) \<Rightarrow> join_path (replicate (length up) ''..'' @ down))"

section \<open>The notions of the properties\<close>

text \<open>Two graphs with the same entries and the same edges.\<close>

definition same_shape :: "graph \<Rightarrow> graph \<Rightarrow> bool" where
  "same_shape g g' \<longleftrightarrow>
     entries g' = entries g \<and>
     (\<forall>k. path (heap g' k) = path (heap g k)
        \<and> dependencies (heap g' k) = dependencies (heap g k)
        \<and> inverseDependencies (heap g' k) = inverseDependencies (heap g k))"

text \<open>The modules that the dependency entries of a module resolve to.\<close>

definition targets :: "module \<Rightarrow> string list" where
  "targets m = map (\<lambda>(k, d). absolutePath d) (dependencies m)"

text \<open>
  A graph is consistent over the module objects \<open>ks\<close> when its entries are among them,
  each of them is stored under its path, has dependency entries with distinct keys and
  inverse dependencies among \<open>ks\<close>, the inverse dependencies of an object \<open>t\<close> hold the
  path of an object \<open>a\<close> exactly as often as \<open>a\<close> has dependency entries that resolve to
  \<open>t\<close>, and every dependency entry of a module of the graph resolves to a module of the
  graph.
\<close>

definition consistent :: "string list \<Rightarrow> graph \<Rightarrow> bool" where
  "consistent ks g \<longleftrightarrow>
     set (entries g) \<subseteq> set ks \<and>
     (\<forall>a \<in> set ks. path (heap g a) = a
        \<and> distinct (map fst (dependencies (heap g a)))
        \<and> set (inverseDependencies (heap g a)) \<subseteq> set ks) \<and>
     (\<forall>a \<in> set ks. \<forall>t \<in> set ks.
        count_list (inverseDependencies (heap g t)) a = count_list (targets (heap g a)) t) \<and>
     (\<forall>a \<in> set (entries g). \<forall>t \<in> set (targets (heap g a)). t \<in> set (entries g))"

text \<open>
  A tree is tidy when \<^verbatim>\<open>removeUnusedImports\<close> has nothing to do on it: no unused imported
  identifier, and every import declaration has specifiers, all of them named.
\<close>

fun named :: "specifier \<Rightarrow> bool" where
  "named (ImportSpecifier imported local) = True"
| "named (ImportDefaultSpecifier local) = False"
| "named (ImportNamespaceSpecifier local) = False"

fun tidy_statement :: "statement \<Rightarrow> bool" where
  "tidy_statement (ImportDeclaration src specs) = (specs \<noteq> [] \<and> list_all named specs)"
| "tidy_statement (ExportDefaultDeclaration body) = True"
| "tidy_statement (ExportNamedDeclaration d specs) = True"
| "tidy_statement (Statement body) = True"

definition tidy :: "program \<Rightarrow> bool" where
  "tidy body \<longleftrightarrow> unusedImports body = [] \<and> list_all tidy_statement body"

text \<open>
  The exports of a module are live when the export visitors of \<^verbatim>\<open>treeShakeExports\<close>
  remove none of its statements.  A graph is settled when this holds for all its modules
  and their trees are tidy.
\<close>

definition exports_live :: "graph \<Rightarrow> string \<Rightarrow> bool" where
  "exports_live g k \<longleftrightarrow>
     (\<forall>outputItem \<in> set (outputs (heap g k)). \<forall>s \<in> set (ast outputItem).
        shake_statement (isExportUsed g k (heap g k)) s = Inr False)"

definition imports_tidy :: "graph \<Rightarrow> string \<Rightarrow> bool" where
  "imports_tidy g k \<longleftrightarrow> (\<forall>outputItem \<in> set (outputs (heap g k)). tidy (ast outputItem))"

definition settled :: "graph \<Rightarrow> bool" where
  "settled g \<longleftrightarrow> (\<forall>k \<in> set (entries g). exports_live g k \<and> imports_tidy g k)"

text \<open>What \<open>isExportUsed\<close> reads of a module.\<close>

definition usage_view :: "module \<Rightarrow> (string \<times> import_item list option) list" where
  "usage_view m = map (\<lambda>outputItem. (output_type outputItem, modules_imports outputItem)) (outputs m)"

text \<open>The recorded imports of a graph are fresh when a new analysis records the same.\<close>

definition fresh :: "graph \<Rightarrow> bool" where
  "fresh g \<longleftrightarrow> list_all (\<lambda>k. collectImportExports (heap g k) = Inr (heap g k)) (entries g)"

















section \<open>Observations and example inputs\<close>

fun completed :: "'a outcome \<Rightarrow> bool" where
  "completed (Done x) = True"
| "completed (Threw e) = False"
| "completed OutOfFuel = False"

fun thrown :: "'a outcome \<Rightarrow> error option" where
  "thrown (Done x) = None"
| "thrown (Threw e) = Some e"
| "thrown OutOfFuel = None"

fun final_asts :: "graph outcome \<Rightarrow> string \<Rightarrow> program list" where
  "final_asts (Done g) k = map ast (outputs (heap g k))"
| "final_asts (Threw e) k = []"
| "final_asts OutOfFuel k = []"

fun final_entries :: "graph outcome \<Rightarrow> string list" where
  "final_entries (Done g) = entries g"
| "final_entries (Threw e) = []"
| "final_entries OutOfFuel = []"

fun emitted_sources :: "serializer_result outcome \<Rightarrow> string list list" where
  "emitted_sources (Done (StaticAssets assets)) =
     concat (map (\<lambda>a. case asset_source a of SourceMapJson m \<Rightarrow> [fst m] | Text t \<Rightarrow> []) assets)"
| "emitted_sources (Done (Plain c)) = []"
| "emitted_sources (Threw e) = []"
| "emitted_sources OutOfFuel = []"

definition js_output :: "program \<Rightarrow> output_item" where
  "js_output body =
     \<lparr>output_type = ''js/module'', ast = body, modules_imports = None, code = [],
      lineCount = 0, map_segments = [], functionMap = None\<rparr>"

definition js_module ::
  "string \<Rightarrow> (string \<times> dependency) list \<Rightarrow> string list \<Rightarrow> program \<Rightarrow> module" where
  "js_module file deps importers body =
     \<lparr>path = file, dependencies = deps, inverseDependencies = importers,
      outputs = [js_output body]\<rparr>"

definition edge :: "string \<Rightarrow> string \<Rightarrow> string \<times> dependency" where
  "edge spec file = (spec, \<lparr>absolutePath = file, data_name = spec\<rparr>)"

definition example_babel :: babel where
  "example_babel = \<lparr>generate = (\<lambda>file body. Inr (''code'', None)), countLines = (\<lambda>c. 1)\<rparr>"

text \<open>
  The URL parser of the examples reads request URLs of the form
  \<^verbatim>\<open>http://host/path?name=value&name=value\<close>, without fragment and without escapes: the
  path starts at the first \<^verbatim>\<open>/\<close> after the host and ends before the \<^verbatim>\<open>?\<close>, and the
  query gives the search parameters in order.
\<close>

definition cut_at :: "char \<Rightarrow> string \<Rightarrow> string \<times> string" where
  "cut_at c s = (takeWhile (\<lambda>x. x \<noteq> c) s, drop 1 (dropWhile (\<lambda>x. x \<noteq> c) s))"

fun split_on :: "char \<Rightarrow> string \<Rightarrow> string list" where
  "split_on c [] = [[]]"
| "split_on c (x # xs) =
     (if x = c then [] # split_on c xs
      else (case split_on c xs of [] \<Rightarrow> [[x]] | seg # segs \<Rightarrow> (x # seg) # segs))"

definition example_parse_url :: "string \<Rightarrow> url" where
  "example_parse_url su =
     (case cut_at (CHR ''?'') su of
        (location, query) \<Rightarrow>
          \<lparr>pathname = (if take 7 location = ''http://''
                        then dropWhile (\<lambda>x. x \<noteq> CHR ''/'') (drop 7 location)
                        else location),
           searchParams = map (cut_at (CHR ''='')) (filter (\<lambda>p. p \<noteq> []) (split_on (CHR ''&'') query))\<rparr>)"

definition example_url :: string where
  "example_url =
     ''http://localhost:8081/index.bundle?platform=web&dev=false&serializer.output=static&serializer.map=true''"

definition example_env :: collaborators where
  "example_env =
     \<lparr>baseJSBundle = (\<lambda>ps. ''console.log(1)'' @ fst ps),
      parse_url = example_parse_url,
      getCssSerialAssets = (\<lambda>g options. []),
      fileNameFromContents = (\<lambda>filepath src. ''index-abc''),
      sourceMapString = (\<lambda>ms options. ([''/home/u/app/index.js'', ''__prelude__''], ''mappings'')),
      path_relative = posix_relative\<rparr>"

definition example_options :: serializer_options where
  "example_options =
     \<lparr>sourceUrl = Some example_url, sourceMapUrl = Some ''index.map'',
      dev = False, projectRoot = ''/home/u/app'', serverRoot = None, createModuleId = length\<rparr>"

text \<open>Scenario A of the specification: only \<^verbatim>\<open>add\<close> of \<^verbatim>\<open>util.js\<close> is imported.\<close>

definition scenario_A :: graph where
  "scenario_A = graph_of
     [(''/a.js'', js_module ''/a.js'' [edge ''./util'' ''/util.js''] []
         [ImportDeclaration ''./util'' [ImportSpecifier ''add'' ''add''],
          Statement [CallExpression (Identifier ''add'') []]]),
      (''/util.js'', js_module ''/util.js'' [] [''/a.js'']
         [ExportNamedDeclaration (Some (FunctionDeclaration ''add'' [])) [],
          ExportNamedDeclaration (Some (FunctionDeclaration ''unusedHelper'' [])) []])]"

definition stage_a :: plugin where
  "stage_a props = (case props of (e, pre, g, options) \<Rightarrow> Done (e @ ''a'', pre, g, options))"

definition stage_b :: plugin where
  "stage_b props = (case props of (e, pre, g, options) \<Rightarrow> Done (e @ ''b'', pre, g, options))"


definition edge_count :: "graph \<Rightarrow> nat" where
  "edge_count g = sum_list (map (\<lambda>k. length (dependencies (heap g k))) (entries g))"

text \<open>
  One run of \<^verbatim>\<open>treeShakeAll\<close> on a graph whose first entry is \<open>k\<close>, up to the first call
  of \<^verbatim>\<open>removeUnusedImports\<close>: the flag says whether the run calls itself again there.
\<close>

definition first_iteration :: "graph \<Rightarrow> string \<Rightarrow> error + (bool \<times> graph)" where
  "first_iteration g k =
     and_then (collect_all (entries g) g)
       (\<lambda>g1. and_then (treeShakeExports g1 k) (\<lambda>g2. removeUnusedImports g2 k 0))"

fun iteration_summary ::
  "error + (bool \<times> graph) \<Rightarrow> string \<Rightarrow> (bool \<times> nat \<times> program list) option" where
  "iteration_summary (Inr (removed, g)) k =
     Some (removed, edge_count g, map ast (outputs (heap g k)))"
| "iteration_summary (Inl e) k = None"

definition const_export :: "string list \<Rightarrow> statement" where
  "const_export names =
     ExportNamedDeclaration
       (Some (VariableDeclaration (map (\<lambda>n. VariableDeclarator (IdentifierPattern n) []) names))) []"

definition call :: "string \<Rightarrow> statement" where
  "call f = Statement [CallExpression (Identifier f) []]"

text \<open>
  \<^verbatim>\<open>b.js\<close> assigns \<^verbatim>\<open>module.exports\<close> and has an export declaration of which no named
  import is found.
\<close>

definition commonjs_body :: program where
  "commonjs_body =
     [Statement [OtherNode [MemberExpression (Identifier ''module'') (Identifier ''exports''),
                            OtherNode []]],
      const_export [''version'']]"

definition commonjs_example :: graph where
  "commonjs_example = graph_of
     [(''/a.js'', js_module ''/a.js'' [edge ''./b'' ''/b.js''] []
         [ImportDeclaration ''./b'' [ImportSpecifier ''helper'' ''helper''], call ''helper'']),
      (''/b.js'', js_module ''/b.js'' [] [''/a.js''] commonjs_body)]"


text \<open>\<^verbatim>\<open>import { a as b } from './m'; b()\<close>.\<close>

definition alias_example :: graph where
  "alias_example = graph_of
     [(''/a.js'', js_module ''/a.js'' [edge ''./m'' ''/m.js''] []
         [ImportDeclaration ''./m'' [ImportSpecifier ''a'' ''b''], call ''b'']),
      (''/m.js'', js_module ''/m.js'' [] [''/a.js''] [const_export [''a'']])]"

text \<open>\<^verbatim>\<open>import React from './react'; React()\<close>.\<close>

definition default_import_example :: graph where
  "default_import_example = graph_of
     [(''/a.js'', js_module ''/a.js'' [edge ''./react'' ''/react.js''] []
         [ImportDeclaration ''./react'' [ImportDefaultSpecifier ''React''], call ''React'']),
      (''/react.js'', js_module ''/react.js'' [] [''/a.js''] [ExportDefaultDeclaration []])]"

text \<open>\<^verbatim>\<open>import { x, y } from './b'; x()\<close>.\<close>

definition two_names_example :: graph where
  "two_names_example = graph_of
     [(''/a.js'', js_module ''/a.js'' [edge ''./b'' ''/b.js''] []
         [ImportDeclaration ''./b'' [ImportSpecifier ''x'' ''x'', ImportSpecifier ''y'' ''y''],
          call ''x'']),
      (''/b.js'', js_module ''/b.js'' [] [''/a.js''] [const_export [''x''], const_export [''y'']])]"

text \<open>
  A chain: \<^verbatim>\<open>a.js\<close> is \<^verbatim>\<open>import { x } from './b'; f()\<close>, \<^verbatim>\<open>b.js\<close> is
  \<^verbatim>\<open>import { y } from './c'; export const x = y\<close>, and \<^verbatim>\<open>c.js\<close> is
  \<^verbatim>\<open>export const y = 1\<close>.
\<close>

definition chain_example :: graph where
  "chain_example = graph_of
     [(''/a.js'', js_module ''/a.js'' [edge ''./b'' ''/b.js''] []
         [ImportDeclaration ''./b'' [ImportSpecifier ''x'' ''x''], call ''f'']),
      (''/b.js'', js_module ''/b.js'' [edge ''./c'' ''/c.js''] [''/a.js'']
         [ImportDeclaration ''./c'' [ImportSpecifier ''y'' ''y''],
          ExportNamedDeclaration
            (Some (VariableDeclaration
               [VariableDeclarator (IdentifierPattern ''x'') [Identifier ''y'']])) []]),
      (''/c.js'', js_module ''/c.js'' [] [''/b.js''] [const_export [''y'']])]"


fun final_inverseDependencies :: "graph outcome \<Rightarrow> string \<Rightarrow> string list" where
  "final_inverseDependencies (Done g) k = inverseDependencies (heap g k)"
| "final_inverseDependencies (Threw e) k = []"
| "final_inverseDependencies OutOfFuel k = []"

text \<open>\<^verbatim>\<open>export const x = require('./b')\<close> in an entry point.\<close>

definition stale_require_example :: graph where
  "stale_require_example = graph_of
     [(''/a.js'', js_module ''/a.js'' [edge ''./b'' ''/b.js''] []
         [ExportNamedDeclaration
            (Some (VariableDeclaration
               [VariableDeclarator (IdentifierPattern ''x'')
                  [CallExpression (Identifier ''require'') [StringLiteral ''./b'']]])) []]),
      (''/b.js'', js_module ''/b.js'' [] [''/a.js''] [const_export [''y'']])]"

fun rerun :: "nat \<Rightarrow> graph outcome \<Rightarrow> graph outcome" where
  "rerun fuel (Done g) = treeShakeAll fuel g"
| "rerun fuel (Threw e) = Threw e"
| "rerun fuel OutOfFuel = OutOfFuel"






fun stage_asts :: "params outcome \<Rightarrow> string \<Rightarrow> program list" where
  "stage_asts (Done (e, pre, g, options)) k = map ast (outputs (heap g k))"
| "stage_asts (Threw e) k = []"
| "stage_asts OutOfFuel k = []"

text \<open>
  A run returns within a budget when it has not run out of fuel; a completed run neither
  adds entries nor import declarations or specifiers.
\<close>

definition returns_within :: "string list \<Rightarrow> graph \<Rightarrow> graph outcome \<Rightarrow> bool" where
  "returns_within ks g r =
     (case r of
        OutOfFuel \<Rightarrow> False
      | Threw e \<Rightarrow> True
      | Done g' \<Rightarrow> set (entries g') \<subseteq> set (entries g) \<and> graph_weight ks g' \<le> graph_weight ks g)"

fun holds_finally :: "(graph \<Rightarrow> bool) \<Rightarrow> graph outcome \<Rightarrow> bool" where
  "holds_finally P (Done g) = P g"
| "holds_finally P (Threw e) = False"
| "holds_finally P OutOfFuel = False"

definition scenario_B :: graph where
  "scenario_B = graph_of
     [(''/a.js'', js_module ''/a.js'' [edge ''./b'' ''/b.js''] []
         [ImportDeclaration ''./b'' [ImportSpecifier ''x'' ''x''], call ''f'']),
      (''/b.js'', js_module ''/b.js'' [] [''/a.js''] [const_export [''x'']])]"



definition plain_options :: serializer_options where
  "plain_options = example_options\<lparr>sourceUrl := None\<rparr>"

section \<open>Properties\<close>

subsection \<open>Results and errors\<close>

lemma and_then_Inr:
  "and_then r f = Inr y \<longleftrightarrow> (\<exists>x. r = Inr x \<and> f x = Inr y)"
  by (cases r) (simp_all add: and_then_def)

lemma and_then_simps [simp]:
  "and_then (Inl e) f = Inl e" "and_then (Inr x) f = f x"
  by (simp_all add: and_then_def)

lemma each_Inr:
  "each f xs = Inr ys \<longleftrightarrow> list_all2 (\<lambda>x y. f x = Inr y) xs ys"
proof (induction xs arbitrary: ys)
  case Nil
  show ?case by auto
next
  case (Cons x xs)
  show ?case
    by (cases ys) (auto simp: and_then_Inr Cons)
qed

subsection \<open>The weight of the trees\<close>

lemma collect_output_ast: "collect_output val out = Inr out' \<Longrightarrow> ast out' = ast out"
  by (auto simp: collect_output_def and_then_Inr)

lemma collectImportExports_weight:
  assumes "collectImportExports m = Inr m'"
  shows "module_weight m' = module_weight m"
proof -
  from assms obtain outs where outs: "list_all2 (\<lambda>x y. collect_output m x = Inr y) (outputs m) outs"
    and m': "m' = m\<lparr>outputs := outs\<rparr>"
    by (auto simp: collectImportExports_def and_then_Inr each_Inr)
  from outs have "map ast outs = map ast (outputs m)"
    by (induction rule: list_all2_induct) (auto dest: collect_output_ast)
  then have "map (\<lambda>outputItem. program_weight (ast outputItem)) outs
      = map (\<lambda>outputItem. program_weight (ast outputItem)) (outputs m)"
    by (metis (mono_tags, lifting) list.map_comp comp_apply map_eq_conv)
  with m' show ?thesis by (simp add: module_weight_def)
qed

lemma graph_weight_upd:
  "module_weight m = module_weight (heap g k) \<Longrightarrow>
   graph_weight ks (g\<lparr>heap := (heap g)(k := m)\<rparr>) = graph_weight ks g"
  unfolding graph_weight_def by (rule arg_cong [where f = sum_list]) auto

lemma collect_all_weight:
  "collect_all ks g = Inr g' \<Longrightarrow> graph_weight js g' = graph_weight js g \<and> entries g' = entries g"
proof (induction ks arbitrary: g)
  case Nil
  then show ?case by simp
next
  case (Cons k ks)
  then obtain m where m: "collectImportExports (heap g k) = Inr m"
    and rest: "collect_all ks (g\<lparr>heap := (heap g)(k := m)\<rparr>) = Inr g'"
    by (auto simp: and_then_Inr)
  from Cons.IH [OF rest] graph_weight_upd [of m g k js] collectImportExports_weight [OF m]
  show ?case by simp
qed


lemma shake_statement_weight: "shake_statement used s = Inr True \<Longrightarrow> statement_weight s = 0"
  by (cases s) simp_all

lemma shake_program_weight:
  "shake_program used body = Inr body' \<Longrightarrow> program_weight body' = program_weight body"
proof (induction body arbitrary: body')
  case Nil
  then show ?case by simp
next
  case (Cons s ss)
  then obtain b ss' where b: "shake_statement used s = Inr b"
    and ss': "shake_program used ss = Inr ss'"
    and body': "body' = (if b then ss' else s # ss')"
    by (auto simp: and_then_Inr)
  from Cons.IH [OF ss'] shake_statement_weight [of used s] b body'
  show ?case by (auto simp: program_weight_def)
qed

lemma shake_outputs_weight:
  "list_all2 (\<lambda>x y. shake_output used x = Inr y) outs outs' \<Longrightarrow>
   map (\<lambda>outputItem. program_weight (ast outputItem)) outs'
     = map (\<lambda>outputItem. program_weight (ast outputItem)) outs"
  by (induction rule: list_all2_induct)
     (auto simp: shake_output_def and_then_Inr dest: shake_program_weight)

lemma treeShakeExports_weight:
  assumes "treeShakeExports g k = Inr g'"
  shows "graph_weight js g' = graph_weight js g \<and> entries g' = entries g"
proof -
  from assms obtain outs where
    outs: "list_all2 (\<lambda>x y. shake_output (isExportUsed g k (heap g k)) x = Inr y)
             (outputs (heap g k)) outs"
    and g': "g' = update_module g k (\<lambda>m. m\<lparr>outputs := outs\<rparr>)"
    by (auto simp: treeShakeExports_def Let_def and_then_Inr each_Inr)
  have "module_weight ((heap g k)\<lparr>outputs := outs\<rparr>) = module_weight (heap g k)"
    using shake_outputs_weight [OF outs] by (simp add: module_weight_def)
  with g' graph_weight_upd [of "(heap g k)\<lparr>outputs := outs\<rparr>" g k js]
  show ?thesis by (simp add: update_module_def)
qed

lemma filter_specifiers_length:
  "filter_specifiers unused specs = Inr specs' \<Longrightarrow>
   length specs' \<le> length specs \<and>
   ((\<exists>sp \<in> set specs. specifier_identifier sp \<in> set unused) \<longrightarrow> length specs' < length specs)"
proof (induction unused specs arbitrary: specs' rule: filter_specifiers.induct)
  case (1 unused)
  then show ?case by simp
next
  case (2 unused imported local ss)
  then obtain rest where rest: "filter_specifiers unused ss = Inr rest"
    and specs': "specs' = (if imported \<in> set unused then rest else ImportSpecifier imported local # rest)"
    by (auto simp: and_then_Inr)
  from "2.IH" [OF rest] specs' show ?case by auto
qed simp_all

lemma unlink_dependency_frame:
  "unlink_dependency g v src = Inr g' \<Longrightarrow>
   (\<forall>k. outputs (heap g' k) = outputs (heap g k)) \<and> set (entries g') \<subseteq> set (entries g)"
  by (auto simp: unlink_dependency_def Let_def update_module_def
      split: option.splits prod.splits if_splits)

lemma remove_imports_weight:
  "remove_imports unused v body g r0 = Inr (body', g', r) \<Longrightarrow>
   (\<forall>k. outputs (heap g' k) = outputs (heap g k)) \<and> set (entries g') \<subseteq> set (entries g) \<and>
   program_weight body' \<le> program_weight body \<and>
   (r \<and> \<not> r0 \<longrightarrow> program_weight body' < program_weight body) \<and>
   ((\<exists>i \<in> set (concat (map statement_imported body)). i \<in> set unused) \<longrightarrow>
      program_weight body' < program_weight body)"
proof (induction unused v body g r0 arbitrary: body' g' r rule: remove_imports.induct)
  case (1 unused v g removed)
  then show ?case by (simp add: program_weight_def)
next
  case (2 unused v src specs ss g removed)
  from "2.prems" obtain specs' where specs': "filter_specifiers unused specs = Inr specs'"
    by (auto simp: and_then_Inr)
  note len = filter_specifiers_length [OF specs']
  show ?case
  proof (cases "specs' = []")
    case True
    with "2.prems" specs' obtain g1 where g1: "unlink_dependency g v src = Inr g1"
      and rest: "remove_imports unused v ss g1 True = Inr (body', g', r)"
      by (auto simp: and_then_Inr)
    from "2.IH"(1) [OF True rest] unlink_dependency_frame [OF g1]
    show ?thesis by (auto simp: program_weight_def)
  next
    case False
    with "2.prems" specs' obtain ss' where
      rest: "remove_imports unused v ss g removed = Inr (ss', g', r)"
      and body': "body' = ImportDeclaration src specs' # ss'"
      by (auto simp: and_then_Inr)
    from "2.IH"(2) [OF False rest] len body'
    show ?thesis by (auto simp: program_weight_def)
  qed
next
  case (3 unused v body ss g removed)
  then obtain ss' where rest: "remove_imports unused v ss g removed = Inr (ss', g', r)"
    and body': "body' = ExportDefaultDeclaration body # ss'"
    by (auto simp: and_then_Inr)
  from "3.IH" [OF rest] body' show ?case by (auto simp: program_weight_def)
next
  case (4 unused v d specs ss g removed)
  then obtain ss' where rest: "remove_imports unused v ss g removed = Inr (ss', g', r)"
    and body': "body' = ExportNamedDeclaration d specs # ss'"
    by (auto simp: and_then_Inr)
  from "4.IH" [OF rest] body' show ?case by (auto simp: program_weight_def)
next
  case (5 unused v body ss g removed)
  then obtain ss' where rest: "remove_imports unused v ss g removed = Inr (ss', g', r)"
    and body': "body' = Statement body # ss'"
    by (auto simp: and_then_Inr)
  from "5.IH" [OF rest] body' show ?case by (auto simp: program_weight_def)
qed

lemma unusedImports_imported:
  "unusedImports body \<noteq> [] \<Longrightarrow>
   \<exists>i \<in> set (concat (map statement_imported body)). i \<in> set (unusedImports body)"
proof -
  assume "unusedImports body \<noteq> []"
  then obtain i where i: "i \<in> set (unusedImports body)"
    by (cases "unusedImports body") auto
  then have "i \<in> set (concat (map statement_imported body))"
    by (auto simp: unusedImports_def importedIdentifiers_def)
  with i show ?thesis by blast
qed

lemma module_weight_set_ast:
  assumes "i < length (outputs m)"
  shows "module_weight (set_ast i body m) + program_weight (ast (outputs m ! i))
           = module_weight m + program_weight body"
proof -
  let ?ws = "map (\<lambda>outputItem. program_weight (ast outputItem)) (outputs m)"
  have "map (\<lambda>outputItem. program_weight (ast outputItem))
          ((outputs m)[i := (outputs m ! i)\<lparr>ast := body\<rparr>]) = ?ws[i := program_weight body]"
    by (simp add: map_update)
  moreover have "?ws ! i \<le> sum_list ?ws"
    using assms by (intro member_le_sum_list) auto
  then have "sum_list (?ws[i := program_weight body]) + ?ws ! i
      = sum_list ?ws + program_weight body"
    using assms by (simp add: sum_list_update)
  ultimately show ?thesis using assms by (simp add: module_weight_def set_ast_def)
qed


lemma graph_weight_mono:
  assumes "\<And>k. module_weight (heap g' k) \<le> module_weight (heap g k)"
  shows "graph_weight ks g' \<le> graph_weight ks g"
  unfolding graph_weight_def using assms by (intro sum_list_mono) simp

lemma graph_weight_strict:
  assumes "\<And>k. module_weight (heap g' k) \<le> module_weight (heap g k)"
    and "v \<in> set ks" and "module_weight (heap g' v) < module_weight (heap g v)"
  shows "graph_weight ks g' < graph_weight ks g"
  using assms(2)
proof (induction ks)
  case Nil
  then show ?case by simp
next
  case (Cons k ks)
  have le: "graph_weight ks g' \<le> graph_weight ks g"
    using assms(1) by (rule graph_weight_mono)
  show ?case
  proof (cases "k = v")
    case True
    with assms(3) le show ?thesis by (simp add: graph_weight_def)
  next
    case False
    with Cons have "graph_weight ks g' < graph_weight ks g" by simp
    with assms(1) [of k] show ?thesis by (simp add: graph_weight_def add_le_less_mono)
  qed
qed

lemma removeUnusedImports_weight:
  assumes "removeUnusedImports g v i = Inr (b, g')"
  shows "set (entries g') \<subseteq> set (entries g)"
    and "graph_weight ks g' \<le> graph_weight ks g"
    and "b \<Longrightarrow> v \<in> set ks \<Longrightarrow> graph_weight ks g' < graph_weight ks g"
proof -
  let ?body = "ast (outputs (heap g v) ! i)"
  from assms have i: "i < length (outputs (heap g v))"
    by (auto simp: removeUnusedImports_def split: if_splits)
  with assms obtain body' g1 where
    rm: "remove_imports (unusedImports ?body) v ?body g (unusedImports ?body \<noteq> []) = Inr (body', g1, b)"
    and g': "g' = update_module g1 v (set_ast i body')"
    by (auto simp: removeUnusedImports_def Let_def and_then_Inr)
  note w = remove_imports_weight [OF rm]
  from w have outs: "\<And>k. outputs (heap g1 k) = outputs (heap g k)" by simp
  have same: "\<And>k. module_weight (heap g1 k) = module_weight (heap g k)"
    by (simp add: module_weight_def outs)
  have eq: "module_weight (heap g' v) + program_weight ?body
      = module_weight (heap g v) + program_weight body'"
    using module_weight_set_ast [of i "heap g1 v" body'] i
    by (simp add: g' update_module_def outs same)
  have other: "\<And>k. k \<noteq> v \<Longrightarrow> module_weight (heap g' k) = module_weight (heap g k)"
    by (simp add: g' update_module_def same)
  from w have le: "program_weight body' \<le> program_weight ?body" by simp
  have all: "\<And>k. module_weight (heap g' k) \<le> module_weight (heap g k)"
  proof -
    fix k show "module_weight (heap g' k) \<le> module_weight (heap g k)"
      using eq le other [of k] by (cases "k = v") auto
  qed
  show "set (entries g') \<subseteq> set (entries g)"
    using w by (simp add: g' update_module_def)
  show "graph_weight ks g' \<le> graph_weight ks g"
    using all by (rule graph_weight_mono)
  show "graph_weight ks g' < graph_weight ks g" if b and v: "v \<in> set ks"
  proof -
    have "program_weight body' < program_weight ?body"
    proof (cases "unusedImports ?body = []")
      case True
      with w \<open>b\<close> show ?thesis by simp
    next
      case False
      from unusedImports_imported [OF False] w show ?thesis by blast
    qed
    with eq have "module_weight (heap g' v) < module_weight (heap g v)" by simp
    with all v show ?thesis by (rule graph_weight_strict)
  qed
qed

subsection \<open>Termination\<close>

lemma shake_outputs_returns:
  assumes again: "\<And>g. set (entries g) \<subseteq> set ks \<Longrightarrow> graph_weight ks g < w \<Longrightarrow>
                   returns_within ks g (again g)"
    and v: "v \<in> set ks"
  shows "set (entries g) \<subseteq> set ks \<Longrightarrow> graph_weight ks g \<le> w \<Longrightarrow>
         returns_within ks g (shake_outputs again v is g)"
proof (induction "is" arbitrary: g)
  case Nil
  then show ?case by (simp add: returns_within_def)
next
  case (Cons i "is")
  show ?case
  proof (cases "removeUnusedImports g v i")
    case (Inl e)
    then show ?thesis by (simp add: returns_within_def)
  next
    case (Inr p)
    obtain b g1 where p: "p = (b, g1)" by (cases p)
    note rm = Inr [unfolded p]
    note w1 = removeUnusedImports_weight [OF rm]
    from w1(1) Cons.prems(1) have sub1: "set (entries g1) \<subseteq> set ks" by blast
    have le1: "graph_weight ks g1 \<le> graph_weight ks g" by (rule w1(2))
    show ?thesis
    proof (cases b)
      case False
      from Cons.IH [OF sub1] le1 Cons.prems(2)
      have "returns_within ks g1 (shake_outputs again v is g1)" by simp
      with rm False w1(1) le1 show ?thesis
        by (auto simp: returns_within_def split: outcome.splits)
    next
      case True
      from w1(3) [OF True v] Cons.prems(2) have lt: "graph_weight ks g1 < w" by simp
      from again [OF sub1 lt] have a: "returns_within ks g1 (again g1)" .
      show ?thesis
      proof (cases "again g1")
        case OutOfFuel
        with a show ?thesis by (simp add: returns_within_def)
      next
        case (Threw e)
        with rm True show ?thesis by (simp add: returns_within_def)
      next
        case (Done g2)
        with a have g2: "set (entries g2) \<subseteq> set (entries g1)"
          "graph_weight ks g2 \<le> graph_weight ks g1"
          by (simp_all add: returns_within_def)
        with sub1 lt have "set (entries g2) \<subseteq> set ks" "graph_weight ks g2 \<le> w" by auto
        from Cons.IH [OF this]
        have "returns_within ks g2 (shake_outputs again v is g2)" .
        with rm True Done g2 w1(1) le1 show ?thesis
          by (auto simp: returns_within_def split: outcome.splits)
      qed
    qed
  qed
qed

lemma shake_modules_returns:
  assumes again: "\<And>g. set (entries g) \<subseteq> set ks \<Longrightarrow> graph_weight ks g < w \<Longrightarrow>
                   returns_within ks g (again g)"
  shows "set (entries g) \<subseteq> set ks \<Longrightarrow> graph_weight ks g \<le> w \<Longrightarrow>
         returns_within ks g (shake_modules again js g)"
proof (induction js arbitrary: g)
  case Nil
  then show ?case by (simp add: returns_within_def)
next
  case (Cons k js)
  show ?case
  proof (cases "k \<in> set (entries g)")
    case False
    with Cons show ?thesis by simp
  next
    case True
    with Cons.prems have k: "k \<in> set ks" by blast
    show ?thesis
    proof (cases "treeShakeExports g k")
      case (Inl e)
      with True show ?thesis by (simp add: returns_within_def)
    next
      case (Inr g1)
      note w1 = treeShakeExports_weight [OF Inr, of ks]
      with Cons.prems have p1: "set (entries g1) \<subseteq> set ks" "graph_weight ks g1 \<le> w" by simp_all
      let ?r = "shake_outputs again k [0..<length (outputs (heap g1 k))] g1"
      from shake_outputs_returns [of ks w again k, OF again k p1]
      have r: "returns_within ks g1 ?r" by simp
      show ?thesis
      proof (cases ?r)
        case OutOfFuel
        with r show ?thesis by (simp add: returns_within_def)
      next
        case (Threw e)
        with True Inr show ?thesis by (simp add: returns_within_def)
      next
        case (Done g2)
        with r have g2: "set (entries g2) \<subseteq> set (entries g1)"
          "graph_weight ks g2 \<le> graph_weight ks g1"
          by (simp_all add: returns_within_def)
        with p1 have "set (entries g2) \<subseteq> set ks" "graph_weight ks g2 \<le> w" by auto
        from Cons.IH [OF this] have "returns_within ks g2 (shake_modules again js g2)" .
        with True Inr Done g2 w1 show ?thesis
          by (auto simp: returns_within_def split: outcome.splits)
      qed
    qed
  qed
qed

lemma treeShakeAll_returns:
  "set (entries g) \<subseteq> set ks \<Longrightarrow> graph_weight ks g < n \<Longrightarrow>
   returns_within ks g (treeShakeAll n g)"
proof (induction n arbitrary: g)
  case 0
  then show ?case by simp
next
  case (Suc n)
  show ?case
  proof (cases "collect_all (entries g) g")
    case (Inl e)
    then show ?thesis by (simp add: returns_within_def)
  next
    case (Inr g1)
    note w1 = collect_all_weight [OF Inr, of ks]
    with Suc.prems have p1: "set (entries g1) \<subseteq> set ks" "graph_weight ks g1 \<le> n" by simp_all
    have "returns_within ks g1 (shake_modules (treeShakeAll n) (entries g1) g1)"
      using Suc.IH p1 by (intro shake_modules_returns [where w = n]) auto
    with Inr w1 show ?thesis
      by (auto simp: returns_within_def split: outcome.splits)
  qed
qed

text \<open>A run that has not run out of fuel is the same with more fuel.\<close>

lemma shake_outputs_fuel:
  assumes "\<And>g. again g \<noteq> OutOfFuel \<Longrightarrow> again' g = again g"
  shows "shake_outputs again v is g \<noteq> OutOfFuel \<Longrightarrow>
         shake_outputs again' v is g = shake_outputs again v is g"
proof (induction "is" arbitrary: g)
  case Nil
  show ?case by simp
next
  case (Cons i "is")
  show ?case
  proof (cases "removeUnusedImports g v i")
    case (Inl e)
    then show ?thesis by simp
  next
    case (Inr p)
    obtain b g1 where p: "p = (b, g1)" by (cases p)
    show ?thesis
    proof (cases b)
      case False
      with Cons Inr p show ?thesis by simp
    next
      case True
      with Cons.prems Inr p have ne: "again g1 \<noteq> OutOfFuel"
        by (auto split: outcome.splits)
      from assms [OF ne] have eq: "again' g1 = again g1" .
      show ?thesis
      proof (cases "again g1")
        case OutOfFuel
        with ne show ?thesis by simp
      next
        case (Threw e)
        with Inr p True eq show ?thesis by simp
      next
        case (Done g2)
        with Cons.prems Inr p True have "shake_outputs again v is g2 \<noteq> OutOfFuel" by simp
        from Cons.IH [OF this] Inr p True eq Done show ?thesis by simp
      qed
    qed
  qed
qed

lemma shake_modules_fuel:
  assumes "\<And>g. again g \<noteq> OutOfFuel \<Longrightarrow> again' g = again g"
  shows "shake_modules again ks g \<noteq> OutOfFuel \<Longrightarrow>
         shake_modules again' ks g = shake_modules again ks g"
proof (induction ks arbitrary: g)
  case Nil
  show ?case by simp
next
  case (Cons k ks)
  show ?case
  proof (cases "k \<in> set (entries g)")
    case False
    with Cons show ?thesis by simp
  next
    case True
    show ?thesis
    proof (cases "treeShakeExports g k")
      case (Inl e)
      with True show ?thesis by simp
    next
      case (Inr g1)
      let ?r = "shake_outputs again k [0..<length (outputs (heap g1 k))] g1"
      from Cons.prems True Inr have ne: "?r \<noteq> OutOfFuel"
        by (auto split: outcome.splits)
      from shake_outputs_fuel [OF assms ne]
      have eq: "shake_outputs again' k [0..<length (outputs (heap g1 k))] g1 = ?r" .
      show ?thesis
      proof (cases ?r)
        case OutOfFuel
        with ne show ?thesis by simp
      next
        case (Threw e)
        with True Inr eq show ?thesis by simp
      next
        case (Done g2)
        with Cons.prems True Inr have "shake_modules again ks g2 \<noteq> OutOfFuel" by simp
        from Cons.IH [OF this] True Inr eq Done show ?thesis by simp
      qed
    qed
  qed
qed

lemma treeShakeAll_more_fuel:
  "treeShakeAll n g \<noteq> OutOfFuel \<Longrightarrow> treeShakeAll (n + m) g = treeShakeAll n g"
proof (induction n arbitrary: g)
  case 0
  then show ?case by simp
next
  case (Suc n)
  show ?case
  proof (cases "collect_all (entries g) g")
    case (Inl e)
    then show ?thesis by simp
  next
    case (Inr g1)
    with Suc.prems have "shake_modules (treeShakeAll n) (entries g1) g1 \<noteq> OutOfFuel" by simp
    from shake_modules_fuel [of "treeShakeAll n" "treeShakeAll (n + m)", OF Suc.IH this] Inr
    show ?thesis by simp
  qed
qed

text \<open>
  C7, as the code has it.  The fixpoint loop returns (or throws) on every graph: a run of
  \<^verbatim>\<open>treeShakeAll\<close> calls itself only after \<^verbatim>\<open>removeUnusedImports\<close> has removed an import
  specifier or an import declaration, so the number of import declarations and specifiers
  of the trees is lower at every re-run.  A fuel above that number is never used up, and
  more fuel gives the same result.
\<close>

theorem treeShakeAll_terminates:
  "graph_weight (entries g) g < fuel \<Longrightarrow>
   treeShakeAll fuel g \<noteq> OutOfFuel \<and> treeShakeAll (fuel + extra) g = treeShakeAll fuel g"
proof -
  assume "graph_weight (entries g) g < fuel"
  with treeShakeAll_returns [of g "entries g" fuel]
  have "treeShakeAll fuel g \<noteq> OutOfFuel" by (auto simp: returns_within_def)
  with treeShakeAll_more_fuel [of fuel g extra] show ?thesis by simp
qed

theorem treeShakeAll_terminates_witness:
  "graph_weight (entries two_names_example) two_names_example < 4
   \<and> treeShakeAll 4 two_names_example \<noteq> OutOfFuel
   \<and> treeShakeAll (4 + 3) two_names_example = treeShakeAll 4 two_names_example"
proof -
  have w: "graph_weight (entries two_names_example) two_names_example < 4"
    by code_simp
  from treeShakeAll_terminates [OF w, of 3] w show ?thesis by simp
qed

text \<open>
  C7 as stated fails: a run can change a tree and call itself again although no edge of
  the graph has been removed.  In \<^verbatim>\<open>import { x, y } from './b'; x()\<close> the first run removes
  the specifier \<^verbatim>\<open>y\<close> and re-runs, and the graph has one edge before and after.
\<close>

theorem rerun_without_edge_removal:
  "iteration_summary (first_iteration two_names_example ''/a.js'') ''/a.js'' =
     Some (True, 1, [[ImportDeclaration ''./b'' [ImportSpecifier ''x'' ''x''], call ''x'']])
   \<and> edge_count two_names_example = 1"
  by code_simp

subsection \<open>CommonJS exports and import bindings\<close>

text \<open>
  C1 at a module that assigns \<^verbatim>\<open>module.exports\<close>: the detector finds the pattern, and the
  stage removes the module's export declaration all the same
  (\<^verbatim>\<open>detectCommonJsExportsUsage\<close> is never called).
\<close>

theorem commonjs_exports_pruned:
  "detectCommonJsExportsUsage commonjs_body = Inr True
   \<and> stage_asts (treeShakeSerializerPlugin 2 example_babel ''/a.js'' [] commonjs_example
        example_options) ''/b.js'' =
     [[Statement [OtherNode [MemberExpression (Identifier ''module'') (Identifier ''exports''),
                             OtherNode []]]]]"
  by code_simp

text \<open>
  C4 at an aliased import and at a default import.  In
  \<^verbatim>\<open>import { a as b } from './m'; b()\<close> the binding \<^verbatim>\<open>b\<close> is referenced, and the pass removes
  its specifier, the import declaration and the module \<^verbatim>\<open>m.js\<close>, because it looks for the
  imported name \<^verbatim>\<open>a\<close> among the referenced identifiers.  On
  \<^verbatim>\<open>import React from './react'; React()\<close> the pass throws.
\<close>

theorem aliased_import_removed:
  "final_asts (treeShakeAll 3 alias_example) ''/a.js'' = [[call ''b'']]
   \<and> final_entries (treeShakeAll 3 alias_example) = [''/a.js'']
   \<and> thrown (treeShakeAll 3 default_import_example) = Some TypeError"
  by code_simp

subsection \<open>An invariant rule for the fixpoint\<close>

lemma shake_outputs_invariant:
  assumes again: "\<And>g g'. I g \<Longrightarrow> again g = Done g' \<Longrightarrow> I g'"
    and imp: "\<And>g i b g'. I g \<Longrightarrow> removeUnusedImports g v i = Inr (b, g') \<Longrightarrow> I g'"
  shows "I g \<Longrightarrow> shake_outputs again v is g = Done g' \<Longrightarrow> I g'"
proof (induction "is" arbitrary: g)
  case Nil
  then show ?case by simp
next
  case (Cons i "is")
  from Cons.prems(2) obtain b g1 where rm: "removeUnusedImports g v i = Inr (b, g1)"
    by (auto split: sum.splits)
  from imp [OF Cons.prems(1) rm] have I1: "I g1" .
  show ?case
  proof (cases b)
    case False
    with Cons.prems(2) rm have "shake_outputs again v is g1 = Done g'" by simp
    from Cons.IH [OF I1 this] show ?thesis .
  next
    case True
    with Cons.prems(2) rm obtain g2 where a: "again g1 = Done g2"
      and rest: "shake_outputs again v is g2 = Done g'"
      by (auto split: outcome.splits)
    from Cons.IH [OF again [OF I1 a] rest] show ?thesis .
  qed
qed

lemma shake_modules_invariant:
  assumes again: "\<And>g g'. I g \<Longrightarrow> again g = Done g' \<Longrightarrow> I g'"
    and exp: "\<And>g k g'. I g \<Longrightarrow> k \<in> set (entries g) \<Longrightarrow> treeShakeExports g k = Inr g' \<Longrightarrow> I g'"
    and imp: "\<And>g v i b g'. I g \<Longrightarrow> v \<in> K \<Longrightarrow> removeUnusedImports g v i = Inr (b, g') \<Longrightarrow> I g'"
    and sub: "\<And>g. I g \<Longrightarrow> set (entries g) \<subseteq> K"
  shows "I g \<Longrightarrow> shake_modules again ks g = Done g' \<Longrightarrow> I g'"
proof (induction ks arbitrary: g)
  case Nil
  then show ?case by simp
next
  case (Cons k ks)
  show ?case
  proof (cases "k \<in> set (entries g)")
    case False
    with Cons show ?thesis by simp
  next
    case True
    with sub [OF Cons.prems(1)] have k: "k \<in> K" by blast
    from True Cons.prems(2) obtain g1 g2 where ex: "treeShakeExports g k = Inr g1"
      and outs: "shake_outputs again k [0..<length (outputs (heap g1 k))] g1 = Done g2"
      and rest: "shake_modules again ks g2 = Done g'"
      by (auto split: sum.splits outcome.splits)
    from exp [OF Cons.prems(1) True ex] have I1: "I g1" .
    have "I g2"
      using again imp [OF _ k] I1 outs by (rule shake_outputs_invariant)
    from Cons.IH [OF this rest] show ?thesis .
  qed
qed

lemma treeShakeAll_invariant:
  assumes col: "\<And>g g'. I g \<Longrightarrow> collect_all (entries g) g = Inr g' \<Longrightarrow> I g'"
    and exp: "\<And>g k g'. I g \<Longrightarrow> k \<in> set (entries g) \<Longrightarrow> treeShakeExports g k = Inr g' \<Longrightarrow> I g'"
    and imp: "\<And>g v i b g'. I g \<Longrightarrow> v \<in> K \<Longrightarrow> removeUnusedImports g v i = Inr (b, g') \<Longrightarrow> I g'"
    and sub: "\<And>g. I g \<Longrightarrow> set (entries g) \<subseteq> K"
  shows "I g \<Longrightarrow> treeShakeAll n g = Done g' \<Longrightarrow> I g'"
proof (induction n arbitrary: g g')
  case 0
  then show ?case by simp
next
  case (Suc n)
  from Suc.prems(2) obtain g1 where c: "collect_all (entries g) g = Inr g1"
    and loop: "shake_modules (treeShakeAll n) (entries g1) g1 = Done g'"
    by (auto split: sum.splits)
  from col [OF Suc.prems(1) c] have I1: "I g1" .
  show ?case
  proof (rule shake_modules_invariant [where I = I and K = K and again = "treeShakeAll n"])
    show "I g1" by (rule I1)
    show "shake_modules (treeShakeAll n) (entries g1) g1 = Done g'" by (rule loop)
    show "\<And>g g'. I g \<Longrightarrow> treeShakeAll n g = Done g' \<Longrightarrow> I g'" by (rule Suc.IH)
    show "\<And>g k g'. I g \<Longrightarrow> k \<in> set (entries g) \<Longrightarrow> treeShakeExports g k = Inr g' \<Longrightarrow> I g'"
      by (rule exp)
    show "\<And>g v i b g'. I g \<Longrightarrow> v \<in> K \<Longrightarrow> removeUnusedImports g v i = Inr (b, g') \<Longrightarrow> I g'"
      by (rule imp)
    show "\<And>g. I g \<Longrightarrow> set (entries g) \<subseteq> K" by (rule sub)
  qed
qed

subsection \<open>What each pass changes\<close>

lemma same_shape_refl: "same_shape g g"
  by (simp add: same_shape_def)

lemma same_shape_trans: "same_shape g g1 \<Longrightarrow> same_shape g1 g2 \<Longrightarrow> same_shape g g2"
  by (simp add: same_shape_def)

lemma same_shape_outputs:
  "same_shape g (g\<lparr>heap := (heap g)(k := (heap g k)\<lparr>outputs := outs\<rparr>)\<rparr>)"
  by (simp add: same_shape_def)

lemma collectImportExports_outputs:
  "collectImportExports m = Inr m' \<Longrightarrow> \<exists>outs. m' = m\<lparr>outputs := outs\<rparr>"
  by (auto simp: collectImportExports_def and_then_Inr)

lemma collect_all_shape: "collect_all ks g = Inr g' \<Longrightarrow> same_shape g g'"
proof (induction ks arbitrary: g)
  case Nil
  then show ?case by (simp add: same_shape_refl)
next
  case (Cons k ks)
  then obtain m where m: "collectImportExports (heap g k) = Inr m"
    and rest: "collect_all ks (g\<lparr>heap := (heap g)(k := m)\<rparr>) = Inr g'"
    by (auto simp: and_then_Inr)
  from collectImportExports_outputs [OF m] obtain outs where "m = (heap g k)\<lparr>outputs := outs\<rparr>" ..
  with same_shape_outputs [of g k outs] Cons.IH [OF rest] show ?case
    by (auto intro: same_shape_trans)
qed

lemma treeShakeExports_shape: "treeShakeExports g k = Inr g' \<Longrightarrow> same_shape g g'"
  by (auto simp: treeShakeExports_def Let_def and_then_Inr update_module_def same_shape_def)

lemma set_ast_shape: "same_shape g (update_module g v (set_ast i body))"
  by (simp add: same_shape_def update_module_def set_ast_def)

lemma unlink_dependency_effect:
  assumes "unlink_dependency g v src = Inr g'"
  obtains depId found dep where
    "find (\<lambda>(k, dep). data_name dep = src) (dependencies (heap g v)) = Some (depId, found)"
    and "depId \<noteq> []"
    and "map_of (dependencies (heap g v)) depId = Some dep"
    and "absolutePath dep \<in> set (entries g)"
    and "entries g' =
           (if remove1 (path (heap g v)) (inverseDependencies (heap g (absolutePath dep))) = []
            then removeAll (absolutePath dep) (entries g) else entries g)"
    and "\<And>a. path (heap g' a) = path (heap g a)"
    and "\<And>a. outputs (heap g' a) = outputs (heap g a)"
    and "\<And>a. dependencies (heap g' a) =
           (if a = v then filter (\<lambda>(k, d). k \<noteq> depId) (dependencies (heap g v))
            else dependencies (heap g a))"
    and "\<And>a. inverseDependencies (heap g' a) =
           (if a = absolutePath dep
            then remove1 (path (heap g v)) (inverseDependencies (heap g a))
            else inverseDependencies (heap g a))"
proof -
  from assms obtain depId found where
    f: "find (\<lambda>(k, dep). data_name dep = src) (dependencies (heap g v)) = Some (depId, found)"
    by (auto simp: unlink_dependency_def Let_def split: option.splits)
  with assms have ne: "depId \<noteq> []"
    by (auto simp: unlink_dependency_def Let_def split: if_splits)
  with assms f obtain dep where
    d: "map_of (dependencies (heap g v)) depId = Some dep"
    by (auto simp: unlink_dependency_def Let_def split: option.splits)
  with assms f ne have t: "absolutePath dep \<in> set (entries g)"
    by (auto simp: unlink_dependency_def Let_def graph_get_def split: if_splits)
  from assms f ne d t have g':
    "g' = update_module
            (let g1 = update_module g (absolutePath dep)
                        (\<lambda>m. m\<lparr>inverseDependencies :=
                                 remove1 (path (heap g v)) (inverseDependencies m)\<rparr>)
             in if inverseDependencies (heap g1 (absolutePath dep)) = []
                then g1\<lparr>entries := removeAll (absolutePath dep) (entries g1)\<rparr> else g1)
            v (\<lambda>m. m\<lparr>dependencies := filter (\<lambda>(k, d). k \<noteq> depId) (dependencies m)\<rparr>)"
    by (simp add: unlink_dependency_def Let_def graph_get_def)
  show thesis
  proof (rule that [OF f ne d t])
    show "entries g' =
           (if remove1 (path (heap g v)) (inverseDependencies (heap g (absolutePath dep))) = []
            then removeAll (absolutePath dep) (entries g) else entries g)"
      by (simp add: g' update_module_def Let_def)
    show "\<And>a. path (heap g' a) = path (heap g a)"
      by (simp add: g' update_module_def Let_def)
    show "\<And>a. outputs (heap g' a) = outputs (heap g a)"
      by (simp add: g' update_module_def Let_def)
    show "\<And>a. dependencies (heap g' a) =
           (if a = v then filter (\<lambda>(k, d). k \<noteq> depId) (dependencies (heap g v))
            else dependencies (heap g a))"
      by (simp add: g' update_module_def Let_def)
    show "\<And>a. inverseDependencies (heap g' a) =
           (if a = absolutePath dep
            then remove1 (path (heap g v)) (inverseDependencies (heap g a))
            else inverseDependencies (heap g a))"
      by (simp add: g' update_module_def Let_def)
  qed
qed

lemma remove_imports_invariant:
  assumes un: "\<And>g src g'. J g \<Longrightarrow> unlink_dependency g v src = Inr g' \<Longrightarrow> J g'"
  shows "J g \<Longrightarrow> remove_imports unused v body g r0 = Inr (body', g', r) \<Longrightarrow> J g'"
proof (induction body arbitrary: g r0 body')
  case Nil
  then show ?case by simp
next
  case (Cons s ss)
  show ?case
  proof (cases s)
    case (ImportDeclaration src specs)
    with Cons.prems(2) obtain specs' where
      specs': "filter_specifiers unused specs = Inr specs'"
      by (auto simp: and_then_Inr)
    show ?thesis
    proof (cases "specs' = []")
      case True
      with Cons.prems(2) ImportDeclaration specs' obtain g1 where
        g1: "unlink_dependency g v src = Inr g1"
        and rest: "remove_imports unused v ss g1 True = Inr (body', g', r)"
        by (auto simp: and_then_Inr)
      from Cons.IH [OF un [OF Cons.prems(1) g1] rest] show ?thesis .
    next
      case False
      with Cons.prems(2) ImportDeclaration specs' obtain ss' where
        "remove_imports unused v ss g r0 = Inr (ss', g', r)"
        by (auto simp: and_then_Inr)
      from Cons.IH [OF Cons.prems(1) this] show ?thesis .
    qed
  next
    case (ExportDefaultDeclaration body)
    with Cons.prems(2) obtain ss' where "remove_imports unused v ss g r0 = Inr (ss', g', r)"
      by (auto simp: and_then_Inr)
    from Cons.IH [OF Cons.prems(1) this] show ?thesis .
  next
    case (ExportNamedDeclaration d specs)
    with Cons.prems(2) obtain ss' where "remove_imports unused v ss g r0 = Inr (ss', g', r)"
      by (auto simp: and_then_Inr)
    from Cons.IH [OF Cons.prems(1) this] show ?thesis .
  next
    case (Statement body)
    with Cons.prems(2) obtain ss' where "remove_imports unused v ss g r0 = Inr (ss', g', r)"
      by (auto simp: and_then_Inr)
    from Cons.IH [OF Cons.prems(1) this] show ?thesis .
  qed
qed

lemma removeUnusedImports_invariant:
  assumes un: "\<And>g src g'. J g \<Longrightarrow> unlink_dependency g v src = Inr g' \<Longrightarrow> J g'"
    and shape: "\<And>g g'. same_shape g g' \<Longrightarrow> J g \<Longrightarrow> J g'"
    and J: "J g" and rm: "removeUnusedImports g v i = Inr (b, g')"
  shows "J g'"
proof -
  let ?body = "ast (outputs (heap g v) ! i)"
  from rm obtain body' g1 where
    r: "remove_imports (unusedImports ?body) v ?body g (unusedImports ?body \<noteq> []) = Inr (body', g1, b)"
    and g': "g' = update_module g1 v (set_ast i body')"
    by (auto simp: removeUnusedImports_def Let_def and_then_Inr split: if_splits)
  have "J g1" using un J r by (rule remove_imports_invariant)
  with shape [OF set_ast_shape] g' show ?thesis by simp
qed

subsection \<open>Consistency of the edges\<close>

lemma consistent_shape: "same_shape g g' \<Longrightarrow> consistent ks g \<Longrightarrow> consistent ks g'"
  by (simp add: consistent_def same_shape_def targets_def)

lemma count_list_remove1:
  "count_list (remove1 x xs) a = count_list xs a - (if a = x \<and> x \<in> set xs then 1 else 0)"
  by (induction xs) auto

lemma count_list_without_key:
  assumes "distinct (map fst xs)" and "(k, d) \<in> set xs"
  shows "count_list (map f (filter (\<lambda>(k', d'). k' \<noteq> k) xs)) t =
         count_list (map f xs) t - (if f (k, d) = t then 1 else 0)"
  using assms
proof (induction xs)
  case Nil
  then show ?case by simp
next
  case (Cons x xs)
  obtain k' d' where x: "x = (k', d')" by (cases x)
  show ?case
  proof (cases "k' = k")
    case True
    with Cons.prems x have "d' = d" and "k \<notin> fst ` set xs" by (auto simp: rev_image_eqI)
    then have "filter (\<lambda>(k', d'). k' \<noteq> k) xs = xs"
      by (auto simp: filter_id_conv rev_image_eqI)
    with True x \<open>d' = d\<close> show ?thesis by simp
  next
    case False
    with Cons.prems x have "distinct (map fst xs)" and "(k, d) \<in> set xs" by auto
    from Cons.IH [OF this] False x show ?thesis
      using count_list_0_iff [of "map f xs" t] \<open>(k, d) \<in> set xs\<close>
      by (auto simp: rev_image_eqI)
  qed
qed

lemma consistent_unlink:
  assumes c: "consistent ks g" and v: "v \<in> set ks"
    and u: "unlink_dependency g v src = Inr g'"
  shows "consistent ks g'"
proof -
  from u obtain depId found dep where
    d: "map_of (dependencies (heap g v)) depId = Some dep"
    and t: "absolutePath dep \<in> set (entries g)"
    and e': "entries g' =
           (if remove1 (path (heap g v)) (inverseDependencies (heap g (absolutePath dep))) = []
            then removeAll (absolutePath dep) (entries g) else entries g)"
    and p': "\<And>a. path (heap g' a) = path (heap g a)"
    and d': "\<And>a. dependencies (heap g' a) =
           (if a = v then filter (\<lambda>(k, d). k \<noteq> depId) (dependencies (heap g v))
            else dependencies (heap g a))"
    and i': "\<And>a. inverseDependencies (heap g' a) =
           (if a = absolutePath dep
            then remove1 (path (heap g v)) (inverseDependencies (heap g a))
            else inverseDependencies (heap g a))"
    by (rule unlink_dependency_effect) blast
  let ?T = "absolutePath dep"
  from c v have pv: "path (heap g v) = v"
    and dk: "distinct (map fst (dependencies (heap g v)))"
    by (simp_all add: consistent_def)
  from c t have tk: "?T \<in> set ks" by (auto simp: consistent_def)
  from c have cnt: "\<And>a t. a \<in> set ks \<Longrightarrow> t \<in> set ks \<Longrightarrow>
      count_list (inverseDependencies (heap g t)) a = count_list (targets (heap g a)) t"
    by (simp add: consistent_def)
  from d have mem: "(depId, dep) \<in> set (dependencies (heap g v))" by (rule map_of_SomeD)
  then have tT: "?T \<in> set (targets (heap g v))" by (force simp: targets_def)
  with cnt [OF v tk] have vT: "v \<in> set (inverseDependencies (heap g ?T))"
    using count_list_0_iff [of "inverseDependencies (heap g ?T)" v]
      count_list_0_iff [of "targets (heap g v)" ?T] by simp
  have tv: "\<And>t. count_list (targets (heap g' v)) t =
      count_list (targets (heap g v)) t - (if t = ?T then 1 else 0)"
    using count_list_without_key [OF dk mem, of "\<lambda>(k, d). absolutePath d"]
    by (auto simp: targets_def d')
  have to: "\<And>a. a \<noteq> v \<Longrightarrow> targets (heap g' a) = targets (heap g a)"
    by (simp add: targets_def d')
  have iT: "\<And>a. count_list (inverseDependencies (heap g' ?T)) a =
      count_list (inverseDependencies (heap g ?T)) a - (if a = v then 1 else 0)"
    using vT by (simp add: i' pv count_list_remove1)
  have io: "\<And>t. t \<noteq> ?T \<Longrightarrow> inverseDependencies (heap g' t) = inverseDependencies (heap g t)"
    by (simp add: i')
  have sub: "set (entries g') \<subseteq> set (entries g)"
    by (auto simp: e')
  have cnt': "count_list (inverseDependencies (heap g' t)) a = count_list (targets (heap g' a)) t"
    if a: "a \<in> set ks" and t: "t \<in> set ks" for a t
  proof (cases "t = ?T")
    case True
    show ?thesis
    proof (cases "a = v")
      case True
      with \<open>t = ?T\<close> cnt [OF v tk] show ?thesis by (simp add: iT tv)
    next
      case False
      with \<open>t = ?T\<close> cnt [OF a tk] show ?thesis by (simp add: iT to)
    qed
  next
    case False
    show ?thesis
    proof (cases "a = v")
      case True
      with False cnt [OF v t] show ?thesis by (simp add: io tv)
    next
      case False
      with \<open>t \<noteq> ?T\<close> cnt [OF a t] show ?thesis by (simp add: io to)
    qed
  qed
  have ts: "set (targets (heap g' a)) \<subseteq> set (targets (heap g a))" for a
    by (auto simp: targets_def d')
  show ?thesis
    unfolding consistent_def
  proof (intro conjI ballI)
    show "set (entries g') \<subseteq> set ks"
      using sub c by (auto simp: consistent_def)
  next
    fix a assume a: "a \<in> set ks"
    with c show "path (heap g' a) = a" by (simp add: p' consistent_def)
    from a c show "distinct (map fst (dependencies (heap g' a)))"
      by (auto simp: d' consistent_def distinct_map_filter)
    from a c have "set (inverseDependencies (heap g a)) \<subseteq> set ks"
      by (simp add: consistent_def)
    moreover have "set (inverseDependencies (heap g' a)) \<subseteq> set (inverseDependencies (heap g a))"
      using set_remove1_subset [of "path (heap g v)" "inverseDependencies (heap g a)"]
      by (auto simp: i')
    ultimately show "set (inverseDependencies (heap g' a)) \<subseteq> set ks" by blast
  next
    fix a t assume "a \<in> set ks" and "t \<in> set ks"
    then show "count_list (inverseDependencies (heap g' t)) a = count_list (targets (heap g' a)) t"
      by (rule cnt')
  next
    fix a t assume a: "a \<in> set (entries g')" and t': "t \<in> set (targets (heap g' a))"
    from a sub have a0: "a \<in> set (entries g)" by blast
    with c have ak: "a \<in> set ks" by (auto simp: consistent_def)
    from t' ts have t0: "t \<in> set (targets (heap g a))" by blast
    from c a0 t0 have old: "t \<in> set (entries g)" by (auto simp: consistent_def)
    show "t \<in> set (entries g')"
    proof (cases "t = ?T")
      case False
      with old show ?thesis by (simp add: e')
    next
      case True
      from t' have "count_list (targets (heap g' a)) t \<noteq> 0"
        by (simp add: count_list_0_iff)
      with cnt' [OF ak tk] True have "a \<in> set (inverseDependencies (heap g' ?T))"
        using count_list_0_iff [of "inverseDependencies (heap g' ?T)" a] by auto
      then have "remove1 (path (heap g v)) (inverseDependencies (heap g ?T)) \<noteq> []"
        by (auto simp: i')
      with old show ?thesis by (simp add: e')
    qed
  qed
qed

lemma treeShakeAll_consistent:
  assumes "consistent ks g" and "treeShakeAll n g = Done g'"
  shows "consistent ks g'"
proof (rule treeShakeAll_invariant [where I = "consistent ks" and K = "set ks"])
  show "consistent ks g" by fact
  show "treeShakeAll n g = Done g'" by fact
  show "\<And>g g'. consistent ks g \<Longrightarrow> collect_all (entries g) g = Inr g' \<Longrightarrow> consistent ks g'"
    by (blast intro: consistent_shape collect_all_shape)
  show "\<And>g k g'. consistent ks g \<Longrightarrow> k \<in> set (entries g) \<Longrightarrow> treeShakeExports g k = Inr g' \<Longrightarrow>
          consistent ks g'"
    by (blast intro: consistent_shape treeShakeExports_shape)
  show "\<And>g v i b g'. consistent ks g \<Longrightarrow> v \<in> set ks \<Longrightarrow>
          removeUnusedImports g v i = Inr (b, g') \<Longrightarrow> consistent ks g'"
  proof -
    fix g v i b g'
    assume c: "consistent ks g" and v: "v \<in> set ks"
      and rm: "removeUnusedImports g v i = Inr (b, g')"
    show "consistent ks g'"
    proof (rule removeUnusedImports_invariant [where J = "consistent ks", OF _ _ c rm])
      show "\<And>g src g'. consistent ks g \<Longrightarrow> unlink_dependency g v src = Inr g' \<Longrightarrow>
              consistent ks g'"
        using v by (blast intro: consistent_unlink)
      show "\<And>g g'. same_shape g g' \<Longrightarrow> consistent ks g \<Longrightarrow> consistent ks g'"
        by (rule consistent_shape)
    qed
  qed
  show "\<And>g. consistent ks g \<Longrightarrow> set (entries g) \<subseteq> set ks"
    by (simp add: consistent_def)
qed

subsection \<open>Settled graphs\<close>

lemma filter_specifiers_nil:
  "filter_specifiers [] specs = Inr specs' \<longleftrightarrow> list_all named specs \<and> specs' = specs"
proof (induction specs arbitrary: specs')
  case Nil
  show ?case by auto
next
  case (Cons sp specs)
  show ?case by (cases sp) (auto simp: and_then_Inr Cons)
qed

lemma remove_imports_flag:
  "remove_imports unused v body g r0 = Inr (body', g', r) \<Longrightarrow> r0 \<Longrightarrow> r"
proof (induction unused v body g r0 arbitrary: body' g' r rule: remove_imports.induct)
  case (2 unused v src specs ss g removed)
  from "2.prems" obtain specs' where specs': "filter_specifiers unused specs = Inr specs'"
    by (auto simp: and_then_Inr)
  show ?case
  proof (cases "specs' = []")
    case True
    with "2.prems" specs' obtain g1 where
      "remove_imports unused v ss g1 True = Inr (body', g', r)"
      by (auto simp: and_then_Inr)
    from "2.IH"(1) [OF True this] show ?thesis by simp
  next
    case False
    with "2.prems" specs' obtain ss' where
      "remove_imports unused v ss g removed = Inr (ss', g', r)"
      by (auto simp: and_then_Inr)
    from "2.IH"(2) [OF False this "2.prems"(2)] show ?thesis .
  qed
qed (auto simp: and_then_Inr)

lemma remove_imports_tidy:
  "list_all tidy_statement body \<Longrightarrow> remove_imports [] v body g False = Inr (body, g, False)"
proof (induction body)
  case Nil
  show ?case by simp
next
  case (Cons s ss)
  then show ?case
    by (cases s) (auto simp: filter_specifiers_nil [THEN iffD2])
qed

lemma remove_imports_unchanged:
  "remove_imports [] v body g False = Inr (body', g', False) \<Longrightarrow>
   list_all tidy_statement body \<and> body' = body \<and> g' = g"
proof (induction body arbitrary: body')
  case Nil
  then show ?case by simp
next
  case (Cons s ss)
  show ?case
  proof (cases s)
    case (ImportDeclaration src specs)
    with Cons.prems obtain specs' where
      specs': "filter_specifiers [] specs = Inr specs'"
      by (auto simp: and_then_Inr)
    then have nm: "list_all named specs" "specs' = specs"
      by (simp_all add: filter_specifiers_nil)
    show ?thesis
    proof (cases "specs = []")
      case True
      with Cons.prems ImportDeclaration specs' nm show ?thesis
        by (auto simp: and_then_Inr dest: remove_imports_flag)
    next
      case False
      with Cons.prems ImportDeclaration specs' nm obtain ss' where
        rest: "remove_imports [] v ss g False = Inr (ss', g', False)"
        and body': "body' = ImportDeclaration src specs # ss'"
        by (auto simp: and_then_Inr)
      from Cons.IH [OF rest] body' ImportDeclaration False nm show ?thesis by simp
    qed
  next
    case (ExportDefaultDeclaration body)
    with Cons.prems obtain ss' where
      rest: "remove_imports [] v ss g False = Inr (ss', g', False)"
      and body': "body' = s # ss'"
      by (auto simp: and_then_Inr)
    from Cons.IH [OF rest] body' ExportDefaultDeclaration show ?thesis by simp
  next
    case (ExportNamedDeclaration d specs)
    with Cons.prems obtain ss' where
      rest: "remove_imports [] v ss g False = Inr (ss', g', False)"
      and body': "body' = s # ss'"
      by (auto simp: and_then_Inr)
    from Cons.IH [OF rest] body' ExportNamedDeclaration show ?thesis by simp
  next
    case (Statement body)
    with Cons.prems obtain ss' where
      rest: "remove_imports [] v ss g False = Inr (ss', g', False)"
      and body': "body' = s # ss'"
      by (auto simp: and_then_Inr)
    from Cons.IH [OF rest] body' Statement show ?thesis by simp
  qed
qed

lemma remove_imports_noop:
  "remove_imports [] v body g False = Inr (body', g', False) \<longleftrightarrow>
     list_all tidy_statement body \<and> body' = body \<and> g' = g"
  using remove_imports_unchanged [of v body g body' g'] remove_imports_tidy [of body v g]
  by blast

lemma update_module_id:
  "i < length (outputs (heap g v)) \<Longrightarrow>
   update_module g v (set_ast i (ast (outputs (heap g v) ! i))) = g"
  by (simp add: update_module_def set_ast_def)

lemma removeUnusedImports_False:
  "removeUnusedImports g v i = Inr (False, g') \<longleftrightarrow>
     i < length (outputs (heap g v)) \<and> tidy (ast (outputs (heap g v) ! i)) \<and> g' = g"
proof (cases "i < length (outputs (heap g v))")
  case False
  then show ?thesis by (simp add: removeUnusedImports_def)
next
  case True
  let ?body = "ast (outputs (heap g v) ! i)"
  show ?thesis
  proof (cases "unusedImports ?body = []")
    case False
    then show ?thesis using True
      by (auto simp: removeUnusedImports_def Let_def and_then_Inr tidy_def
          dest: remove_imports_flag)
  next
    case nil: True
    have "removeUnusedImports g v i = Inr (False, g') \<longleftrightarrow>
        (\<exists>body' g1. remove_imports [] v ?body g False = Inr (body', g1, False)
           \<and> g' = update_module g1 v (set_ast i body'))"
      using True nil by (auto simp: removeUnusedImports_def Let_def and_then_Inr)
    also have "\<dots> \<longleftrightarrow> list_all tidy_statement ?body \<and> g' = g"
      using update_module_id [OF True] by (auto simp: remove_imports_noop)
    finally show ?thesis using True nil by (simp add: tidy_def)
  qed
qed

lemma isExportUsed_view:
  "isExportUsed g depId val importName =
     list_ex (\<lambda>i. i \<in> set (entries g) \<and>
         list_ex (\<lambda>(ty, imps). ty = ''js/module'' \<and>
             (case imps of
                None \<Rightarrow> False
              | Some imports \<Rightarrow>
                  list_ex (\<lambda>importItem.
                      key importItem = depId \<and>
                      (cjs importItem \<or>
                       list_ex (\<lambda>sp. importedName sp = Some importName) (specifiers importItem)))
                    imports))
           (usage_view (heap g i)))
       (inverseDependencies val)"
  by (auto simp: isExportUsed_def graph_get_def usage_view_def list_ex_iff
      split: option.splits)

lemma isExportUsed_cong:
  assumes "entries g' = entries g"
    and "inverseDependencies val' = inverseDependencies val"
    and "\<And>i. usage_view (heap g' i) = usage_view (heap g i)"
  shows "isExportUsed g' depId val' = isExportUsed g depId val"
  by (rule ext) (simp add: isExportUsed_view assms)

lemma shake_program_result:
  "shake_program used body = Inr body' \<Longrightarrow>
   set body' \<subseteq> set body \<and> (\<forall>s \<in> set body'. shake_statement used s = Inr False)"
proof (induction body arbitrary: body')
  case Nil
  then show ?case by simp
next
  case (Cons s ss)
  then obtain b ss' where b: "shake_statement used s = Inr b"
    and ss': "shake_program used ss = Inr ss'"
    and body': "body' = (if b then ss' else s # ss')"
    by (auto simp: and_then_Inr)
  from Cons.IH [OF ss'] b body' show ?case by auto
qed

lemma shake_program_live:
  "\<forall>s \<in> set body. shake_statement used s = Inr False \<Longrightarrow> shake_program used body = Inr body"
  by (induction body) simp_all

lemma treeShakeExports_effect:
  assumes "treeShakeExports g k = Inr g'"
  obtains outs where
    "list_all2 (\<lambda>x y. \<exists>body. shake_program (isExportUsed g k (heap g k)) (ast x) = Inr body
                      \<and> y = x\<lparr>ast := body\<rparr>) (outputs (heap g k)) outs"
    and "g' = g\<lparr>heap := (heap g)(k := (heap g k)\<lparr>outputs := outs\<rparr>)\<rparr>"
proof -
  from assms obtain outs where
    outs: "list_all2 (\<lambda>x y. shake_output (isExportUsed g k (heap g k)) x = Inr y)
             (outputs (heap g k)) outs"
    and g': "g' = g\<lparr>heap := (heap g)(k := (heap g k)\<lparr>outputs := outs\<rparr>)\<rparr>"
    by (auto simp: treeShakeExports_def Let_def and_then_Inr each_Inr update_module_def)
  from outs have "list_all2 (\<lambda>x y. \<exists>body. shake_program (isExportUsed g k (heap g k)) (ast x) = Inr body
                      \<and> y = x\<lparr>ast := body\<rparr>) (outputs (heap g k)) outs"
    by (rule list_all2_mono) (auto simp: shake_output_def and_then_Inr)
  then show thesis using g' by (rule that)
qed

lemma treeShakeExports_view:
  assumes "treeShakeExports g k = Inr g'"
  shows "usage_view (heap g' i) = usage_view (heap g i)"
proof -
  from assms obtain outs where
    outs: "list_all2 (\<lambda>x y. \<exists>body. shake_program (isExportUsed g k (heap g k)) (ast x) = Inr body
                      \<and> y = x\<lparr>ast := body\<rparr>) (outputs (heap g k)) outs"
    and g': "g' = g\<lparr>heap := (heap g)(k := (heap g k)\<lparr>outputs := outs\<rparr>)\<rparr>"
    by (rule treeShakeExports_effect)
  from outs have "map (\<lambda>outputItem. (output_type outputItem, modules_imports outputItem)) outs
      = map (\<lambda>outputItem. (output_type outputItem, modules_imports outputItem)) (outputs (heap g k))"
    by (induction rule: list_all2_induct) auto
  with g' show ?thesis by (simp add: usage_view_def)
qed

lemma treeShakeExports_used:
  assumes "treeShakeExports g k = Inr g'"
  shows "isExportUsed g' d (heap g' d) = isExportUsed g d (heap g d)"
proof (rule isExportUsed_cong)
  from treeShakeExports_shape [OF assms]
  show "entries g' = entries g" "inverseDependencies (heap g' d) = inverseDependencies (heap g d)"
    by (simp_all add: same_shape_def)
  show "\<And>i. usage_view (heap g' i) = usage_view (heap g i)"
    using assms by (rule treeShakeExports_view)
qed

lemma treeShakeExports_live:
  assumes "treeShakeExports g k = Inr g'"
  shows "exports_live g' k"
proof -
  from assms obtain outs where
    outs: "list_all2 (\<lambda>x y. \<exists>body. shake_program (isExportUsed g k (heap g k)) (ast x) = Inr body
                      \<and> y = x\<lparr>ast := body\<rparr>) (outputs (heap g k)) outs"
    and g': "g' = g\<lparr>heap := (heap g)(k := (heap g k)\<lparr>outputs := outs\<rparr>)\<rparr>"
    by (rule treeShakeExports_effect)
  from outs have "\<forall>y \<in> set outs. \<forall>s \<in> set (ast y).
      shake_statement (isExportUsed g k (heap g k)) s = Inr False"
    by (induction rule: list_all2_induct) (auto dest: shake_program_result)
  moreover have "outputs (heap g' k) = outs" using g' by simp
  moreover note treeShakeExports_used [OF assms, of k]
  ultimately show ?thesis
    unfolding exports_live_def by simp
qed

lemma treeShakeExports_other:
  assumes "treeShakeExports g k = Inr g'" and "d \<noteq> k"
  shows "exports_live g' d = exports_live g d" and "imports_tidy g' d = imports_tidy g d"
proof -
  from assms obtain outs where g': "g' = g\<lparr>heap := (heap g)(k := (heap g k)\<lparr>outputs := outs\<rparr>)\<rparr>"
    by (auto elim: treeShakeExports_effect)
  with assms(2) have h: "heap g' d = heap g d" by simp
  from treeShakeExports_used [OF assms(1), of d] h
  have "isExportUsed g' d (heap g d) = isExportUsed g d (heap g d)" by simp
  then show "exports_live g' d = exports_live g d"
    by (simp add: exports_live_def h)
  show "imports_tidy g' d = imports_tidy g d"
    by (simp add: imports_tidy_def h)
qed

lemma exports_live_noop:
  assumes "exports_live g k"
  shows "treeShakeExports g k = Inr g"
proof -
  let ?used = "isExportUsed g k (heap g k)"
  have "\<And>outs. \<forall>y \<in> set outs. \<forall>s \<in> set (ast y). shake_statement ?used s = Inr False \<Longrightarrow>
        each (shake_output ?used) outs = Inr outs"
  proof -
    fix outs :: "output_item list"
    show "\<forall>y \<in> set outs. \<forall>s \<in> set (ast y). shake_statement ?used s = Inr False \<Longrightarrow>
        each (shake_output ?used) outs = Inr outs"
      by (induction outs) (simp_all add: shake_output_def shake_program_live)
  qed
  with assms have "each (shake_output ?used) (outputs (heap g k)) = Inr (outputs (heap g k))"
    by (simp add: exports_live_def)
  then show ?thesis
    by (simp add: treeShakeExports_def Let_def update_module_def)
qed

subsection \<open>A completed run leaves a settled graph\<close>

lemma shake_outputs_settled:
  assumes again: "\<And>g g'. again g = Done g' \<Longrightarrow> settled g'"
  shows "shake_outputs again v is g = Done g' \<Longrightarrow>
         settled g' \<or> (g' = g \<and> (\<forall>i \<in> set is. i < length (outputs (heap g v))
                                    \<and> tidy (ast (outputs (heap g v) ! i))))"
proof (induction "is" arbitrary: g)
  case Nil
  then show ?case by simp
next
  case (Cons i "is")
  from Cons.prems obtain b g1 where rm: "removeUnusedImports g v i = Inr (b, g1)"
    by (auto split: sum.splits)
  show ?case
  proof (cases b)
    case False
    with rm have t: "i < length (outputs (heap g v))" "tidy (ast (outputs (heap g v) ! i))"
      and g1: "g1 = g"
      by (simp_all add: removeUnusedImports_False)
    from Cons.prems rm False g1 have "shake_outputs again v is g = Done g'" by simp
    from Cons.IH [OF this] t show ?thesis by auto
  next
    case True
    with Cons.prems rm obtain g2 where a: "again g1 = Done g2"
      and rest: "shake_outputs again v is g2 = Done g'"
      by (auto split: outcome.splits)
    from again [OF a] have s2: "settled g2" .
    from Cons.IH [OF rest] s2 show ?thesis by auto
  qed
qed

lemma shake_modules_settled:
  assumes again: "\<And>g g'. again g = Done g' \<Longrightarrow> settled g'"
  shows "\<forall>d \<in> set (entries g). d \<notin> set ks \<longrightarrow> exports_live g d \<and> imports_tidy g d \<Longrightarrow>
         shake_modules again ks g = Done g' \<Longrightarrow> settled g'"
proof (induction ks arbitrary: g)
  case Nil
  then show ?case by (simp add: settled_def)
next
  case (Cons k ks)
  show ?case
  proof (cases "k \<in> set (entries g)")
    case False
    with Cons.prems have "shake_modules again ks g = Done g'" by simp
    moreover from False Cons.prems(1)
    have "\<forall>d \<in> set (entries g). d \<notin> set ks \<longrightarrow> exports_live g d \<and> imports_tidy g d" by auto
    ultimately show ?thesis by (rule Cons.IH [rotated])
  next
    case True
    with Cons.prems(2) obtain g1 g2 where ex: "treeShakeExports g k = Inr g1"
      and outs: "shake_outputs again k [0..<length (outputs (heap g1 k))] g1 = Done g2"
      and rest: "shake_modules again ks g2 = Done g'"
      by (auto split: sum.splits outcome.splits)
    have "\<forall>d \<in> set (entries g2). d \<notin> set ks \<longrightarrow> exports_live g2 d \<and> imports_tidy g2 d"
    proof (cases "settled g2")
      case True
      then show ?thesis by (simp add: settled_def)
    next
      case False
      with shake_outputs_settled [OF again outs] have g2: "g2 = g1"
        and t: "\<forall>i < length (outputs (heap g1 k)). tidy (ast (outputs (heap g1 k) ! i))"
        by auto
      from t have tk: "imports_tidy g1 k"
        by (auto simp: imports_tidy_def in_set_conv_nth)
      from treeShakeExports_shape [OF ex] have e1: "entries g1 = entries g"
        by (simp add: same_shape_def)
      show ?thesis
      proof (intro ballI impI)
        fix d assume d: "d \<in> set (entries g2)" "d \<notin> set ks"
        show "exports_live g2 d \<and> imports_tidy g2 d"
        proof (cases "d = k")
          case True
          with tk treeShakeExports_live [OF ex] g2 show ?thesis by simp
        next
          case False
          with d g2 e1 Cons.prems(1) have "exports_live g d \<and> imports_tidy g d" by simp
          with treeShakeExports_other [OF ex False] g2 show ?thesis by simp
        qed
      qed
    qed
    then show ?thesis using rest by (rule Cons.IH)
  qed
qed

lemma treeShakeAll_settled: "treeShakeAll n g = Done g' \<Longrightarrow> settled g'"
proof (induction n arbitrary: g g')
  case 0
  then show ?case by simp
next
  case (Suc n)
  from Suc.prems obtain g1 where
    loop: "shake_modules (treeShakeAll n) (entries g1) g1 = Done g'"
    by (auto split: sum.splits)
  show ?case
    by (rule shake_modules_settled [OF Suc.IH _ loop]) simp_all
qed

subsection \<open>A second run\<close>

lemma shake_outputs_noop:
  assumes "\<forall>i \<in> set is. i < length (outputs (heap g v)) \<and> tidy (ast (outputs (heap g v) ! i))"
  shows "shake_outputs again v is g = Done g"
  using assms
proof (induction "is")
  case Nil
  show ?case by simp
next
  case (Cons i "is")
  then have "removeUnusedImports g v i = Inr (False, g)"
    by (simp add: removeUnusedImports_False)
  with Cons show ?case by simp
qed

lemma shake_modules_noop:
  assumes "settled g"
  shows "shake_modules again ks g = Done g"
proof (induction ks)
  case Nil
  show ?case by simp
next
  case (Cons k ks)
  show ?case
  proof (cases "k \<in> set (entries g)")
    case False
    with Cons show ?thesis by simp
  next
    case True
    with assms have l: "exports_live g k" and t: "imports_tidy g k"
      by (simp_all add: settled_def)
    from t have "shake_outputs again k [0..<length (outputs (heap g k))] g = Done g"
      by (intro shake_outputs_noop) (simp add: imports_tidy_def)
    with True exports_live_noop [OF l] Cons show ?thesis by simp
  qed
qed

lemma second_run_noop:
  assumes "treeShakeAll n g = Done g'" and "collect_all (entries g') g' = Inr g'"
  shows "treeShakeAll (Suc m) g' = Done g'"
  using assms(2) shake_modules_noop [OF treeShakeAll_settled [OF assms(1)]] by simp

lemma holds_finally_Done: "holds_finally P r \<Longrightarrow> \<exists>g. r = Done g \<and> P g"
  by (cases r) simp_all

text \<open>
  C5, as the code has it.  Let the input graph be consistent: every module is stored under
  its path, its dependency entries have distinct keys and resolve to modules of the graph,
  and the inverse dependencies of a module \<open>t\<close> hold paths of modules of the graph, the
  path of \<open>a\<close> exactly as often as \<open>a\<close> has dependency entries that resolve to \<open>t\<close>.  Then
  after a completed run every dependency entry of a module of the graph resolves to a
  module of the graph that has it among its inverse dependencies.  For any two module
  objects \<open>a\<close> and \<open>t\<close> of the input graph, still in the final graph or deleted from it, the
  inverse dependencies of \<open>t\<close> hold the path of \<open>a\<close> exactly as often as \<open>a\<close> has dependency
  entries that resolve to \<open>t\<close>: an edge that the run has unlinked is absent in both
  directions, and a module that the run has deleted from the graph stays among the inverse
  dependencies of every module for which it still has a dependency entry.  The inverse
  dependencies of the final graph name no other paths than those of the modules of the
  input graph.
\<close>

theorem edges_consistent:
  assumes "consistent (entries g) g" and "treeShakeAll n g = Done g'"
  shows "(\<forall>a \<in> set (entries g'). \<forall>t \<in> set (targets (heap g' a)).
            t \<in> set (entries g') \<and> a \<in> set (inverseDependencies (heap g' t)))
       \<and> (\<forall>a \<in> set (entries g). \<forall>t \<in> set (entries g).
            count_list (inverseDependencies (heap g' t)) a = count_list (targets (heap g' a)) t)
       \<and> (\<forall>t \<in> set (entries g').
            set (inverseDependencies (heap g' t)) \<subseteq> set (entries g))"
proof -
  note c = treeShakeAll_consistent [OF assms]
  have "t \<in> set (entries g') \<and> a \<in> set (inverseDependencies (heap g' t))"
    if a: "a \<in> set (entries g')" and t: "t \<in> set (targets (heap g' a))" for a t
  proof
    from c a t show t': "t \<in> set (entries g')" by (simp add: consistent_def)
    from c have "set (entries g') \<subseteq> set (entries g)" by (simp add: consistent_def)
    with a t' have "a \<in> set (entries g)" and "t \<in> set (entries g)" by blast+
    with c have "count_list (inverseDependencies (heap g' t)) a = count_list (targets (heap g' a)) t"
      by (simp add: consistent_def)
    moreover from t have "count_list (targets (heap g' a)) t \<noteq> 0" by (simp add: count_list_0_iff)
    ultimately show "a \<in> set (inverseDependencies (heap g' t))"
      using count_list_0_iff [of "inverseDependencies (heap g' t)" a] by auto
  qed
  moreover from c have "\<forall>a \<in> set (entries g). \<forall>t \<in> set (entries g).
      count_list (inverseDependencies (heap g' t)) a = count_list (targets (heap g' a)) t"
    by (simp add: consistent_def)
  moreover from c have "\<forall>t \<in> set (entries g').
      set (inverseDependencies (heap g' t)) \<subseteq> set (entries g)"
    by (auto simp: consistent_def)
  ultimately show ?thesis by blast
qed

theorem edges_consistent_witness:
  "consistent (entries chain_example) chain_example
   \<and> (\<exists>g'. treeShakeAll 3 chain_example = Done g' \<and> entries g' = [''/a.js'', ''/c.js'']
        \<and> (\<forall>a \<in> set (entries g'). \<forall>t \<in> set (targets (heap g' a)).
              t \<in> set (entries g') \<and> a \<in> set (inverseDependencies (heap g' t)))
        \<and> (\<forall>a \<in> set (entries chain_example). \<forall>t \<in> set (entries chain_example).
              count_list (inverseDependencies (heap g' t)) a = count_list (targets (heap g' a)) t)
        \<and> (\<forall>t \<in> set (entries g').
              set (inverseDependencies (heap g' t)) \<subseteq> set (entries chain_example)))"
proof -
  have c: "consistent (entries chain_example) chain_example"
    by code_simp
  have "holds_finally (\<lambda>g'. entries g' = [''/a.js'', ''/c.js'']) (treeShakeAll 3 chain_example)"
    by code_simp
  then obtain g' where r: "treeShakeAll 3 chain_example = Done g'"
    and e: "entries g' = [''/a.js'', ''/c.js'']"
    by (auto dest: holds_finally_Done)
  from edges_consistent [OF c r] c r e show ?thesis by blast
qed

text \<open>
  C5 as stated fails.  In the chain \<^verbatim>\<open>a.js\<close>, \<^verbatim>\<open>b.js\<close>, \<^verbatim>\<open>c.js\<close> the import of \<^verbatim>\<open>a.js\<close>
  is unused: the run unlinks it and deletes \<^verbatim>\<open>b.js\<close> from the graph, but the path of
  \<^verbatim>\<open>b.js\<close> stays in the inverse dependencies of \<^verbatim>\<open>c.js\<close>, which is still in the graph.
\<close>

theorem deleted_importer_counterexample:
  "final_entries (treeShakeAll 3 chain_example) = [''/a.js'', ''/c.js'']
   \<and> final_inverseDependencies (treeShakeAll 3 chain_example) ''/c.js'' = [''/b.js'']"
  by code_simp

lemma fresh_collect_all:
  "list_all (\<lambda>k. collectImportExports (heap g k) = Inr (heap g k)) ks \<Longrightarrow> collect_all ks g = Inr g"
  by (induction ks) simp_all

text \<open>
  C6, as the code has it.  On a graph that a completed run has left, and whose recorded
  imports are those that a new analysis of its trees records, a second run returns the
  same graph: it removes no edge, specifier, export declaration or module.
\<close>

theorem second_run_is_noop:
  assumes "treeShakeAll n g = Done g'" and "fresh g'"
  shows "treeShakeAll (Suc m) g' = Done g'"
  using second_run_noop [OF assms(1) fresh_collect_all] assms(2) by (simp add: fresh_def)

theorem second_run_is_noop_witness:
  "\<exists>g'. treeShakeAll 3 scenario_B = Done g' \<and> fresh g' \<and> treeShakeAll 1 g' = Done g'"
proof -
  have "holds_finally fresh (treeShakeAll 3 scenario_B)"
    by code_simp
  then obtain g' where r: "treeShakeAll 3 scenario_B = Done g'" and f: "fresh g'"
    by (auto dest: holds_finally_Done)
  from second_run_is_noop [OF r f, of 0] r f show ?thesis by auto
qed

text \<open>
  C6 as stated fails.  In an entry point \<^verbatim>\<open>export const x = require('./b')\<close> the first run
  removes the export and with it the \<^verbatim>\<open>require\<close> call, but the recorded \<^verbatim>\<open>require\<close> edge
  keeps the export of \<^verbatim>\<open>b.js\<close>; the second run analyses the trees anew and removes it.
\<close>

theorem second_run_counterexample:
  "final_asts (treeShakeAll 3 stale_require_example) ''/b.js'' = [[const_export [''y'']]]
   \<and> final_asts (rerun 3 (treeShakeAll 3 stale_require_example)) ''/b.js'' = [[]]"
  by code_simp







subsection \<open>Recorded and actual uses\<close>



lemma each_concat_Inr:
  "each_concat f xs = Inr ys \<longleftrightarrow> (\<exists>zss. list_all2 (\<lambda>x zs. f x = Inr zs) xs zss \<and> ys = concat zss)"
proof (induction xs arbitrary: ys)
  case Nil
  show ?case by auto
next
  case (Cons x xs)
  show ?case
    by (fastforce simp: and_then_Inr Cons list_all2_Cons1)
qed

lemma each_concat_set:
  assumes "each_concat f xs = Inr ys"
  shows "y \<in> set ys \<longleftrightarrow> (\<exists>x \<in> set xs. \<exists>zs. f x = Inr zs \<and> y \<in> set zs)"
proof -
  from assms obtain zss where l: "list_all2 (\<lambda>x zs. f x = Inr zs) xs zss" and ys: "ys = concat zss"
    by (auto simp: each_concat_Inr)
  from l have "(\<exists>zs \<in> set zss. y \<in> set zs) \<longleftrightarrow> (\<exists>x \<in> set xs. \<exists>zs. f x = Inr zs \<and> y \<in> set zs)"
    by (induction rule: list_all2_induct) auto
  with ys show ?thesis by simp
qed













subsection \<open>Uses only shrink\<close>












subsection \<open>The history of the export declarations\<close>
























subsection \<open>The serializer chain\<close>

lemma feed_not_done:
  "foldl feed OutOfFuel stages = OutOfFuel" "foldl feed (Threw e) stages = Threw e"
  by (induction stages) (simp_all add: feed_def)

lemma run_processors_stages:
  "run_processors processors props = stages_in_order (defined_stages processors) props"
proof (induction processors arbitrary: props)
  case Nil
  show ?case by (simp add: stages_in_order_def defined_stages_def List.map_filter_simps)
next
  case (Cons p ps)
  show ?case
  proof (cases p)
    case None
    with Cons show ?thesis
      by (simp add: stages_in_order_def defined_stages_def List.map_filter_simps)
  next
    case (Some stage)
    with Cons show ?thesis
      by (cases "stage props")
         (simp_all add: stages_in_order_def defined_stages_def List.map_filter_simps feed_def
            feed_not_done)
  qed
qed

text \<open>
  C8.  The serializer built by \<^verbatim>\<open>createSerializerFromSerialProcessors\<close> runs the defined
  stages in list order, each stage's output tuple being the input of the next, skips the
  undefined entries, and applies the final serializer to the tuple that the last stage
  returns (a stage that throws or does not return ends the chain).
\<close>

theorem serializer_runs_stages_in_order:
  "createSerializerFromSerialProcessors env processors originalSerializer props =
     (case stages_in_order (defined_stages processors) props of
        OutOfFuel \<Rightarrow> OutOfFuel
      | Threw e \<Rightarrow> Threw e
      | Done props' \<Rightarrow> getDefaultSerializer env originalSerializer props')"
  by (simp add: createSerializerFromSerialProcessors_def run_processors_stages)

theorem serializer_runs_stages_in_order_witness:
  "createSerializerFromSerialProcessors example_env [Some stage_a, None, Some stage_b] None
     (''index'', [], scenario_A, plain_options) =
   Done (Plain (BundleString ''console.log(1)indexab''))"
  using serializer_runs_stages_in_order [of example_env "[Some stage_a, None, Some stage_b]" None
      "(''index'', [], scenario_A, plain_options)"]
  by (simp add: stages_in_order_def defined_stages_def List.map_filter_simps feed_def stage_a_def
      stage_b_def getDefaultSerializer_def defaultSerializer_def example_env_def plain_options_def
      example_options_def)

subsection \<open>The source map of the static export\<close>

text \<open>
  C9, as the code has it.  In the static-export branch, when the map asset is emitted, the
  \<^verbatim>\<open>sources\<close> of the map are those of the source map with every entry that starts with
  \<^verbatim>\<open>/\<close> replaced by \<^verbatim>\<open>/\<close> followed by its path relative to the server root (the
  project root when no server root is given), and every other entry unchanged.  So every
  rewritten entry starts with \<^verbatim>\<open>/\<close> again.
\<close>

theorem static_map_sources:
  assumes "sourceUrl options = Some su" and "su \<noteq> []"
    and "map_of (searchParams (parse_url env su)) ''platform'' = Some ''web''"
    and "map_of (searchParams (parse_url env su)) ''serializer.output'' = Some ''static''"
    and "map_of (searchParams (parse_url env su)) ''serializer.map'' = Some ''true''"
    and "truthy (sourceMapUrl options)"
    and "defaultSerializer env fallbackSerializer (e, pre, g, options) = Done jsCode"
    and "output_truthy jsCode"
  shows "\<exists>js m. getDefaultSerializer env fallbackSerializer (e, pre, g, options) =
           Done (StaticAssets (js # m # getCssSerialAssets env g options))
         \<and> asset_type js = ''js'' \<and> asset_source js = Text (code_of jsCode)
         \<and> asset_type m = ''map''
         \<and> asset_source m = SourceMapJson
             (map (\<lambda>v. if startsWith_slash v
                        then CHR ''/'' # path_relative env
                               (case serverRoot options of
                                  Some root \<Rightarrow> root | None \<Rightarrow> projectRoot options) v
                        else v)
                (fst (map_of_output env (e, pre, g, options) jsCode)),
              snd (map_of_output env (e, pre, g, options) jsCode))"
  using assms
  by (simp add: getDefaultSerializer_def static_assets_def Let_def rewrite_source_def
      cong: if_cong)

theorem static_map_sources_witness:
  "emitted_sources (getDefaultSerializer example_env None
      (''/home/u/app/index.js'', [], scenario_A, example_options)) =
     [[''/index.js'', ''__prelude__'']]"
proof -
  have su: "sourceUrl example_options = Some example_url" "example_url \<noteq> []"
    by (simp_all add: example_options_def example_url_def)
  have q: "map_of (searchParams (parse_url example_env example_url)) ''platform'' = Some ''web''"
    "map_of (searchParams (parse_url example_env example_url)) ''serializer.output'' = Some ''static''"
    "map_of (searchParams (parse_url example_env example_url)) ''serializer.map'' = Some ''true''"
    by code_simp+
  have t: "truthy (sourceMapUrl example_options)"
    by (simp add: truthy_def example_options_def)
  have d: "defaultSerializer example_env None
             (''/home/u/app/index.js'', [], scenario_A, example_options) =
           Done (BundleString ''console.log(1)/home/u/app/index.js'')"
    by (simp add: defaultSerializer_def example_env_def)
  have o: "output_truthy (BundleString ''console.log(1)/home/u/app/index.js'')"
    by simp
  have r: "posix_relative ''/home/u/app'' ''/home/u/app/index.js'' = ''index.js''"
    by code_simp
  from static_map_sources [OF su q t d o] r show ?thesis
    by (auto simp: example_options_def example_env_def serializeToSourceMap_def)
qed

text \<open>
  C9 as stated fails: the rewritten entry of a source file below the root starts with
  \<^verbatim>\<open>/\<close>, and with the server root \<^verbatim>\<open>/\<close> the absolute path of the source file is
  emitted as it is.
\<close>

theorem static_map_sources_counterexample:
  "emitted_sources (getDefaultSerializer example_env None
      (''/home/u/app/index.js'', [], scenario_A, example_options)) =
     [[''/index.js'', ''__prelude__'']]
   \<and> emitted_sources (getDefaultSerializer example_env None
      (''/home/u/app/index.js'', [], scenario_A, example_options\<lparr>serverRoot := Some ''/''\<rparr>)) =
     [[''/home/u/app/index.js'', ''__prelude__'']]"
  by code_simp

subsection \<open>The frame of the tree-shaking stage\<close>

lemma completed_Done: "completed r \<Longrightarrow> \<exists>x. r = Done x"
  by (cases r) simp_all

text \<open>
  C10.  A tuple returned by \<^verbatim>\<open>treeShakeSerializerPlugin\<close> has the entry point, the
  prepended modules and the options that the stage received; only the graph differs.
\<close>

theorem treeShakeSerializerPlugin_frame:
  "treeShakeSerializerPlugin fuel b entryPoint preModules g options =
     Done (entryPoint', preModules', g', options') \<Longrightarrow>
   entryPoint' = entryPoint \<and> preModules' = preModules \<and> options' = options"
  by (auto simp: treeShakeSerializerPlugin_def split: outcome.splits sum.splits)

theorem treeShakeSerializerPlugin_frame_witness:
  "\<exists>g'. treeShakeSerializerPlugin 2 example_babel ''/a.js'' [empty_module] scenario_A
           example_options = Done (''/a.js'', [empty_module], g', example_options)"
proof -
  have "completed (treeShakeSerializerPlugin 2 example_babel ''/a.js'' [empty_module] scenario_A
          example_options)"
    by code_simp
  then obtain e p g' o' where r:
    "treeShakeSerializerPlugin 2 example_babel ''/a.js'' [empty_module] scenario_A example_options
       = Done (e, p, g', o')"
    by (metis completed_Done prod_cases4)
  from treeShakeSerializerPlugin_frame [OF r] r show ?thesis by auto
qed

end
